theory Spec2Isabelle
  imports Complex_Main "HOL-Library.Log_Nat"
begin

section \<open>JavaScript numbers\<close>

text \<open>
  Every number of \<^verbatim>\<open>server.js\<close> is an IEEE 754 double. A finite double is
  represented by the rational it denotes; the result of an arithmetic operation or of
  reading a literal is the exact rational result rounded to the nearest double, ties to
  the even significand (\<open>fl\<close>); a literal of any length is rounded correctly, as the
  engine does. The sign of zero is not represented: the code only compares numbers and
  stores them in a \<^verbatim>\<open>Set\<close>, and both treat \<open>-0\<close> as \<open>0\<close>. A page count is taken as the
  natural number it is; it is a double when it is below \<open>2 ^ 53\<close>.
\<close>

datatype jsnum = NaN | PInf | NInf | Fin rat

definition ilog2 :: "rat \<Rightarrow> int" where
  \<comment> \<open>for \<open>0 < a\<close>: the \<open>e\<close> with \<open>2 powi e \<le> a < 2 powi (e + 1)\<close>\<close>
  "ilog2 a = (if 1 \<le> a then bitlen \<lfloor>a\<rfloor> - 1 else - bitlen (\<lceil>1 / a\<rceil> - 1))"

definition round_half_even :: "rat \<Rightarrow> int" where
  "round_half_even r = (let f = \<lfloor>r\<rfloor>; d = r - of_int f in
     if d < 1 / 2 then f else if 1 / 2 < d then f + 1 else if even f then f else f + 1)"

definition fl :: "rat \<Rightarrow> jsnum" where
  \<comment> \<open>round to nearest double: the significand \<open>m\<close> has at most 53 bits (\<open>m \<le> 2 ^ 53\<close>),
      the least exponent is \<open>-1022\<close>, and a rounded value of \<open>2 ^ 1024\<close> or more is infinite\<close>
  "fl q = (if q = 0 then Fin 0 else
     let a = \<bar>q\<bar>;
         e = max (ilog2 a) (- 1022);
         u = 2 powi (e - 52);
         m = round_half_even (a / u)
     in if 1024 \<le> e \<or> (e = 1023 \<and> m = 2 ^ 53) then (if 0 < q then PInf else NInf)
        else Fin (if 0 < q then of_int m * u else - (of_int m * u)))"

fun js_le :: "jsnum \<Rightarrow> jsnum \<Rightarrow> bool" where
  \<comment> \<open>\<^verbatim>\<open>a <= b\<close>\<close>
  "js_le NaN _ = False"
| "js_le _ NaN = False"
| "js_le NInf _ = True"
| "js_le _ PInf = True"
| "js_le PInf _ = False"
| "js_le _ NInf = False"
| "js_le (Fin a) (Fin b) = (a \<le> b)"

fun js_lt :: "jsnum \<Rightarrow> jsnum \<Rightarrow> bool" where
  \<comment> \<open>\<^verbatim>\<open>a < b\<close>\<close>
  "js_lt NaN _ = False"
| "js_lt _ NaN = False"
| "js_lt PInf _ = False"
| "js_lt _ NInf = False"
| "js_lt NInf _ = True"
| "js_lt _ PInf = True"
| "js_lt (Fin a) (Fin b) = (a < b)"

fun js_add1 :: "jsnum \<Rightarrow> jsnum" where
  \<comment> \<open>\<^verbatim>\<open>i++\<close>, that is \<^verbatim>\<open>i + 1\<close>\<close>
  "js_add1 (Fin q) = fl (q + 1)"
| "js_add1 x = x"

fun js_sub1 :: "jsnum \<Rightarrow> jsnum" where
  \<comment> \<open>\<^verbatim>\<open>i - 1\<close>\<close>
  "js_sub1 (Fin q) = fl (q - 1)"
| "js_sub1 x = x"

section \<open>Strings\<close>

text \<open>
  A string is a list of code units below 256. The white space that \<^verbatim>\<open>trim\<close> and
  \<^verbatim>\<open>Number\<close> skip is, in that range, TAB, LF, VT, FF, CR, SP and NBSP.
\<close>

definition is_ws :: "char \<Rightarrow> bool" where
  "is_ws c = (let k = (of_char c :: int) in (9 \<le> k \<and> k \<le> 13) \<or> k = 32 \<or> k = 160)"

definition trim :: "string \<Rightarrow> string" where
  "trim s = rev (dropWhile is_ws (rev (dropWhile is_ws s)))"

fun split :: "char \<Rightarrow> string \<Rightarrow> string list" where
  \<comment> \<open>\<^verbatim>\<open>s.split(c)\<close> for a one-character separator; never the empty list\<close>
  "split c [] = [[]]"
| "split c (x # xs) =
     (if x = c then [] # split c xs else (let r = split c xs in (x # hd r) # tl r))"

definition digit_of :: "char \<Rightarrow> int option" where
  "digit_of c = (let k = (of_char c :: int) in
     if 48 \<le> k \<and> k \<le> 57 then Some (k - 48)
     else if 97 \<le> k \<and> k \<le> 102 then Some (k - 87)
     else if 65 \<le> k \<and> k \<le> 70 then Some (k - 55)
     else None)"

definition is_digit_in :: "int \<Rightarrow> char \<Rightarrow> bool" where
  "is_digit_in b c = (case digit_of c of Some d \<Rightarrow> d < b | None \<Rightarrow> False)"

definition radix_val :: "int \<Rightarrow> string \<Rightarrow> int" where
  "radix_val b ds = foldl (\<lambda>acc c. acc * b + (case digit_of c of Some d \<Rightarrow> d | None \<Rightarrow> 0)) 0 ds"

subsection \<open>\<^verbatim>\<open>Number(string)\<close>\<close>

text \<open>
  The grammar \<^verbatim>\<open>StringNumericLiteral\<close> of ECMAScript: optional white space around
  nothing (the value 0), a \<^verbatim>\<open>0x\<close>, \<^verbatim>\<open>0o\<close> or \<^verbatim>\<open>0b\<close> integer, or an optionally signed
  \<^verbatim>\<open>Infinity\<close> or decimal literal with optional fraction and exponent; anything else
  is \<^verbatim>\<open>NaN\<close>.
\<close>

definition parse_exponent :: "string \<Rightarrow> int option" where
  "parse_exponent r = (case r of
       [] \<Rightarrow> Some 0
     | c # r' \<Rightarrow>
         if c = CHR ''e'' \<or> c = CHR ''E'' then
           (let (neg, ds) = (case r' of
                  [] \<Rightarrow> (False, [])
                | x # xs \<Rightarrow> if x = CHR ''+'' then (False, xs)
                           else if x = CHR ''-'' then (True, xs) else (False, r'))
            in if ds \<noteq> [] \<and> list_all (is_digit_in 10) ds
               then Some (if neg then - radix_val 10 ds else radix_val 10 ds)
               else None)
         else None)"

definition parse_unsigned_decimal :: "string \<Rightarrow> rat option" where
  "parse_unsigned_decimal u =
     (let ip = takeWhile (is_digit_in 10) u;
          r1 = dropWhile (is_digit_in 10) u;
          (fp, r2) = (case r1 of
              [] \<Rightarrow> ([], [])
            | c # r \<Rightarrow> if c = CHR ''.''
                       then (takeWhile (is_digit_in 10) r, dropWhile (is_digit_in 10) r)
                       else ([], r1))
      in if ip = [] \<and> fp = [] then None
         else (case parse_exponent r2 of
                 None \<Rightarrow> None
               | Some ex \<Rightarrow> Some (of_int (radix_val 10 (ip @ fp)) * 10 powi (ex - int (length fp)))))"

definition parse_non_decimal :: "string \<Rightarrow> int option" where
  "parse_non_decimal t = (case t of
       c0 # c1 # ds \<Rightarrow>
         if c0 = CHR ''0'' \<and> ds \<noteq> [] then
           (if (c1 = CHR ''x'' \<or> c1 = CHR ''X'') \<and> list_all (is_digit_in 16) ds
              then Some (radix_val 16 ds)
            else if (c1 = CHR ''o'' \<or> c1 = CHR ''O'') \<and> list_all (is_digit_in 8) ds
              then Some (radix_val 8 ds)
            else if (c1 = CHR ''b'' \<or> c1 = CHR ''B'') \<and> list_all (is_digit_in 2) ds
              then Some (radix_val 2 ds)
            else None)
         else None
     | _ \<Rightarrow> None)"

definition Number :: "string \<Rightarrow> jsnum" where
  "Number s = (let t = trim s in
     if t = [] then Fin 0
     else (case parse_non_decimal t of
         Some v \<Rightarrow> fl (of_int v)
       | None \<Rightarrow>
           (let (neg, u) = (case t of
                  [] \<Rightarrow> (False, [])
                | c # r \<Rightarrow> if c = CHR ''+'' then (False, r)
                           else if c = CHR ''-'' then (True, r) else (False, t))
            in if u = ''Infinity'' then (if neg then NInf else PInf)
               else (case parse_unsigned_decimal u of
                       None \<Rightarrow> NaN
                     | Some q \<Rightarrow> fl (if neg then - q else q)))))"

section \<open>The page range resolver\<close>

text \<open>
  \<^verbatim>\<open>indices\<close> is a \<^verbatim>\<open>Set\<close>: a list without repetition, in insertion order.
\<close>

definition set_add :: "jsnum \<Rightarrow> jsnum list \<Rightarrow> jsnum list" where
  "set_add x xs = (if x \<in> set xs then xs else xs @ [x])"

definition in_bounds :: "jsnum \<Rightarrow> nat \<Rightarrow> bool" where
  \<comment> \<open>\<^verbatim>\<open>i > 0 && i <= totalPages\<close>\<close>
  "in_bounds i totalPages = (js_lt (Fin 0) i \<and> js_le i (Fin (of_nat totalPages)))"

text \<open>
  \<^verbatim>\<open>for (let i = start; i <= end; i++) if (i > 0 && i <= totalPages) indices.add(i - 1)\<close>.
  The loop need not end (\<^verbatim>\<open>end\<close> may be \<^verbatim>\<open>Infinity\<close>, and \<^verbatim>\<open>i++\<close> stops
  growing at \<open>2 ^ 53\<close>): not returning is the value \<open>None\<close>.
\<close>

partial_function (option) range_loop :: "jsnum \<Rightarrow> jsnum \<Rightarrow> nat \<Rightarrow> jsnum list \<Rightarrow> jsnum list option" where
  "range_loop i endv totalPages indices =
     (if js_le i endv
      then range_loop (js_add1 i) endv totalPages
             (if in_bounds i totalPages then set_add (js_sub1 i) indices else indices)
      else Some indices)"

declare range_loop.simps [code]

definition process_part :: "nat \<Rightarrow> jsnum list \<Rightarrow> string \<Rightarrow> jsnum list option" where
  \<comment> \<open>the body of \<^verbatim>\<open>parts.forEach\<close>; a part that includes \<^verbatim>\<open>-\<close> splits in at least two\<close>
  "process_part totalPages indices part0 =
     (let part = trim part0 in
      if CHR ''-'' \<in> set part then
        (case map Number (split CHR ''-'' part) of
           start # endv # _ \<Rightarrow> range_loop start endv totalPages indices
         | _ \<Rightarrow> Some indices)
      else
        (let page = Number part in
         Some (if in_bounds page totalPages then set_add (js_sub1 page) indices else indices)))"

fun forEach_parts :: "nat \<Rightarrow> string list \<Rightarrow> jsnum list \<Rightarrow> jsnum list option" where
  "forEach_parts totalPages [] indices = Some indices"
| "forEach_parts totalPages (part # parts) indices =
     (case process_part totalPages indices part of
        None \<Rightarrow> None
      | Some indices' \<Rightarrow> forEach_parts totalPages parts indices')"

text \<open>
  \<^verbatim>\<open>Array.from(indices).sort((a, b) => a - b)\<close>: the elements are distinct finite
  numbers, on which the comparator is a total order, so every sorting algorithm returns
  the same array; insertion sort stands for the engine's.
\<close>

fun insort_num :: "jsnum \<Rightarrow> jsnum list \<Rightarrow> jsnum list" where
  "insort_num x [] = [x]"
| "insort_num x (y # ys) = (if js_le x y then x # y # ys else y # insort_num x ys)"

definition sort_num :: "jsnum list \<Rightarrow> jsnum list" where
  "sort_num xs = foldr insort_num xs []"

datatype indices_result = Null | Indices "jsnum list"

definition getPageIndices :: "string \<Rightarrow> nat \<Rightarrow> indices_result option" where
  "getPageIndices rangeStr totalPages =
     (if rangeStr = [] then Some Null
      else (case forEach_parts totalPages (split CHR '','' rangeStr) [] of
              None \<Rightarrow> None
            | Some indices \<Rightarrow> Some (Indices (sort_num indices))))"


section \<open>The print handler\<close>

text \<open>
  The request as \<^verbatim>\<open>multer\<close> hands it over: the uploaded file, if any, with the bytes
  that \<^verbatim>\<open>fs.readFileSync(file.path)\<close> returns, and the text fields of the form, each
  a string or absent.
\<close>

record 'b upload =
  originalname :: string
  mimetype :: string
  content :: 'b

record 'b request =
  req_file :: "'b upload option"
  printerUrl :: "string option"
  duplex :: "string option"
  pages :: "string option"
  grayscale :: "string option"

definition truthy :: "string option \<Rightarrow> bool" where
  \<comment> \<open>a form field in a condition: absent and the empty string are false\<close>
  "truthy v = (case v of None \<Rightarrow> False | Some s \<Rightarrow> s \<noteq> [])"

text \<open>
  The \<^verbatim>\<open>pdf-lib\<close> package is not part of the repository. A document is the list of
  its pages; \<^verbatim>\<open>PDFDocument.load\<close> throws on a buffer it cannot read (\<open>None\<close>),
  \<^verbatim>\<open>save\<close> serialises a document, and \<^verbatim>\<open>copyPages\<close> reads
  \<^verbatim>\<open>srcPages[index]\<close> for each index and throws when that is not a page.
\<close>

record ('b, 'p) pdflib =
  load :: "'b \<Rightarrow> 'p list option"
  save :: "'p list \<Rightarrow> 'b"

datatype 'a outcome = Thrown | Ok 'a

definition page_at :: "'p list \<Rightarrow> jsnum \<Rightarrow> 'p option" where
  "page_at srcPages x = (case x of
       Fin q \<Rightarrow> if 0 \<le> q \<and> of_int \<lfloor>q\<rfloor> = q \<and> nat \<lfloor>q\<rfloor> < length srcPages
                then Some (srcPages ! nat \<lfloor>q\<rfloor>) else None
     | _ \<Rightarrow> None)"

fun copyPages :: "'p list \<Rightarrow> jsnum list \<Rightarrow> 'p list option" where
  "copyPages srcPages [] = Some []"
| "copyPages srcPages (i # indices) =
     (case page_at srcPages i of
        None \<Rightarrow> None
      | Some p \<Rightarrow> (case copyPages srcPages indices of
                    None \<Rightarrow> None
                  | Some ps \<Rightarrow> Some (p # ps)))"

text \<open>
  Lines 67 to 76: the page range. The result is the document and the flag
  \<^verbatim>\<open>modified\<close>; the outer \<open>None\<close> is a resolver that does not return.
\<close>

definition apply_page_range :: "string option \<Rightarrow> 'p list \<Rightarrow> ('p list \<times> bool) outcome option" where
  "apply_page_range pageRange pdfDoc =
     (case pageRange of
        None \<Rightarrow> Some (Ok (pdfDoc, False))
      | Some rangeStr \<Rightarrow>
          if rangeStr = [] then Some (Ok (pdfDoc, False))
          else (case getPageIndices rangeStr (length pdfDoc) of
                  None \<Rightarrow> None
                | Some Null \<Rightarrow> Some (Ok (pdfDoc, False))
                | Some (Indices indices) \<Rightarrow>
                    if indices \<noteq> [] then
                      (case copyPages pdfDoc indices of
                         None \<Rightarrow> Some Thrown
                       | Some newPdf \<Rightarrow> Some (Ok (newPdf, True)))
                    else Some (Ok (pdfDoc, False))))"

text \<open>
  Lines 78 to 90: the manual duplex split, a loop over the page indices of the document
  that the page range left.
\<close>

function parity_loop :: "string \<Rightarrow> 'p list \<Rightarrow> nat \<Rightarrow> 'p list \<Rightarrow> 'p list" where
  "parity_loop duplexType pdfDoc i newPdf =
     (if i < length pdfDoc then
        (let isOddIndex = (i mod 2 = 0) in
         parity_loop duplexType pdfDoc (i + 1)
           (if (duplexType = ''odd'' \<and> isOddIndex) \<or> (duplexType = ''even'' \<and> \<not> isOddIndex)
            then newPdf @ [pdfDoc ! i] else newPdf))
      else newPdf)"
  by pat_completeness auto
termination
  by (relation "measure (\<lambda>(duplexType, pdfDoc, i, newPdf). length pdfDoc - i)") auto

declare parity_loop.simps [simp del]

definition apply_duplex :: "string option \<Rightarrow> 'p list \<times> bool \<Rightarrow> 'p list \<times> bool" where
  "apply_duplex duplexType st =
     (if duplexType = Some ''odd'' \<or> duplexType = Some ''even''
      then (parity_loop (case duplexType of Some d \<Rightarrow> d | None \<Rightarrow> []) (fst st) 0 [], True)
      else st)"

text \<open>Lines 60 to 99: the buffer that is sent.\<close>

definition file_buffer ::
  "('b, 'p) pdflib \<Rightarrow> 'b upload \<Rightarrow> string option \<Rightarrow> string option \<Rightarrow> 'b outcome option" where
  "file_buffer lib f pageRange duplexType =
     (if mimetype f = ''application/pdf'' then
        (case load lib (content f) of
           None \<Rightarrow> Some Thrown
         | Some pdfDoc \<Rightarrow>
             (case apply_page_range pageRange pdfDoc of
                None \<Rightarrow> None
              | Some Thrown \<Rightarrow> Some Thrown
              | Some (Ok st) \<Rightarrow>
                  (let (pdfDoc', modified) = apply_duplex duplexType st
                   in Some (Ok (if modified then save lib pdfDoc' else content f)))))
      else Some (Ok (content f)))"

text \<open>Lines 101 to 124: the IPP request.\<close>

record 'b ipp_request =
  requesting_user_name :: string
  job_name :: string
  document_format :: string
  job_attributes :: "string \<rightharpoonup> string"
  data :: 'b

definition job_attributes_tag :: "bool \<Rightarrow> string option \<Rightarrow> (string \<rightharpoonup> string)" where
  "job_attributes_tag gray duplexType =
     (let a0 = Map.empty;
          a1 = (if gray then a0(''print-color-mode'' \<mapsto> ''monochrome'') else a0);
          a2 = (if duplexType = Some ''auto'' then a1(''sides'' \<mapsto> ''two-sided-long-edge'') else a1)
      in a2)"

definition print_job :: "('b, 'p) pdflib \<Rightarrow> 'b request \<Rightarrow> 'b upload \<Rightarrow> 'b ipp_request outcome option" where
  "print_job lib req f =
     (case file_buffer lib f (pages req) (duplex req) of
        None \<Rightarrow> None
      | Some Thrown \<Rightarrow> Some Thrown
      | Some (Ok fileBuffer) \<Rightarrow>
          Some (Ok \<lparr> requesting_user_name = ''PrintLe-User'',
                     job_name = originalname f,
                     document_format = (if mimetype f = ''application/pdf''
                                        then ''application/pdf'' else ''application/octet-stream''),
                     job_attributes = job_attributes_tag (grayscale req = Some ''true'') (duplex req),
                     data = fileBuffer \<rparr>))"

text \<open>
  Lines 42 to 143: the handler. The printer is a function of the address and the request;
  it answers with an error or with a status code and a job id.
\<close>

datatype 'e printer_reply = Err 'e | Response string nat

datatype 'e response =
    MissingFileOrPrinterUrl
  | InternalServerError
  | PrinterConnectionFailed 'e
  | PrinterReportedError string
  | Success nat

definition print_handler ::
  "('b, 'p) pdflib \<Rightarrow> (string \<Rightarrow> 'b ipp_request \<Rightarrow> 'e printer_reply) \<Rightarrow> 'b request
     \<Rightarrow> 'e response option" where
  "print_handler lib printer req =
     (case req_file req of
        None \<Rightarrow> Some MissingFileOrPrinterUrl
      | Some f \<Rightarrow>
          if \<not> truthy (printerUrl req) then Some MissingFileOrPrinterUrl
          else (case print_job lib req f of
                  None \<Rightarrow> None
                | Some Thrown \<Rightarrow> Some InternalServerError
                | Some (Ok d) \<Rightarrow>
                    Some (case printer (case printerUrl req of Some u \<Rightarrow> u | None \<Rightarrow> []) d of
                            Err e \<Rightarrow> PrinterConnectionFailed e
                          | Response statusCode jobId \<Rightarrow>
                              if statusCode = ''successful-ok''
                                 \<or> statusCode = ''successful-ok-ignored-or-substituted-attributes''
                              then Success jobId
                              else PrinterReportedError statusCode)))"

section \<open>The grammar of range expressions\<close>

text \<open>
  The range expressions that the specification describes: a comma-separated list of
  tokens, each of which, trimmed, is a page number or \<^verbatim>\<open>start-end\<close>. A page number is a
  non-empty string of decimal digits; it is taken below \<open>2 ^ 53\<close>, where every integer
  is a double.
\<close>

definition is_dec :: "string \<Rightarrow> bool" where
  "is_dec ds = (ds \<noteq> [] \<and> list_all (is_digit_in 10) ds \<and> radix_val 10 ds < 2 ^ 53)"

definition valid_token :: "string \<Rightarrow> bool" where
  "valid_token t =
     (let a = takeWhile (\<lambda>c. c \<noteq> CHR ''-'') t;
          r = dropWhile (\<lambda>c. c \<noteq> CHR ''-'') t
      in if r = [] then is_dec a else is_dec a \<and> is_dec (tl r))"

definition valid_expr :: "string \<Rightarrow> bool" where
  "valid_expr s = (s \<noteq> [] \<and> list_all (\<lambda>p. valid_token (trim p)) (split CHR '','' s))"

text \<open>
  The indices that the pages from \<open>a\<close> to \<open>b\<close> leave in a document of \<open>n\<close> pages, and
  the lists that a \<^verbatim>\<open>Set\<close> of finite numbers can be.
\<close>

definition pages_of :: "int \<Rightarrow> int \<Rightarrow> nat \<Rightarrow> jsnum set" where
  "pages_of a b n = {Fin (of_int (p - 1)) | p. a \<le> p \<and> p \<le> b \<and> 1 \<le> p \<and> p \<le> int n}"

text \<open>
  The indices that a token and an expression of the grammar denote in a document of \<open>n\<close>
  pages: those of its page, or of the pages from its start to its end.
\<close>

definition token_pages :: "string \<Rightarrow> nat \<Rightarrow> jsnum set" where
  "token_pages t n =
     (let a = takeWhile (\<lambda>c. c \<noteq> CHR ''-'') t;
          r = dropWhile (\<lambda>c. c \<noteq> CHR ''-'') t
      in if r = [] then pages_of (radix_val 10 a) (radix_val 10 a) n
         else pages_of (radix_val 10 a) (radix_val 10 (tl r)) n)"

definition expr_pages :: "string \<Rightarrow> nat \<Rightarrow> jsnum set" where
  "expr_pages s n = \<Union> (set (map (\<lambda>p. token_pages (trim p) n) (split CHR '','' s)))"

definition fin_set :: "jsnum list \<Rightarrow> bool" where
  "fin_set xs = (distinct xs \<and> list_all (\<lambda>x. case x of Fin q \<Rightarrow> True | _ \<Rightarrow> False) xs)"

section \<open>An example document model\<close>

text \<open>
  For concrete requests: a buffer is the list of its pages, and a printer that accepts
  every job under the id 7. As \<^verbatim>\<open>pdf-lib\<close> does, \<open>save\<close> gives a document without pages
  one blank page, written 0.
\<close>

definition list_lib :: "(nat list, nat) pdflib" where
  "list_lib = \<lparr> load = Some, save = (\<lambda>ps. if ps = [] then [0] else ps) \<rparr>"

definition accepting_printer :: "string \<Rightarrow> nat list ipp_request \<Rightarrow> unit printer_reply" where
  "accepting_printer url d = Response ''successful-ok'' 7"

section \<open>Properties of the number model\<close>

text \<open>Integers below \<open>2 ^ 53\<close> are doubles: rounding leaves them as they are.\<close>

lemma round_half_even_of_int: "round_half_even (of_int z) = z"
  by (simp add: round_half_even_def)

lemma ilog2_of_nat:
  assumes "0 < k"
  shows "ilog2 (of_nat k) = bitlen (int k) - 1"
  using assms by (simp add: ilog2_def)

lemma fl_of_nat:
  assumes "k < 2 ^ 53"
  shows "fl (of_nat k) = Fin (of_nat k)"
proof (cases "k = 0")
  case True
  then show ?thesis by (simp add: fl_def)
next
  case False
  define b where "b = bitlen (int k)"
  have b_le: "b \<le> 53"
    using assms unfolding b_def by (simp add: bitlen_le_iff_power nat_less_iff flip: of_nat_power)
  have b_ge: "1 \<le> b"
    using False bitlen_nonneg [of "int k"] bitlen_eq_zero_iff [of "int k"] unfolding b_def
    by linarith
  define d where "d = nat (53 - b)"
  have e: "max (ilog2 (of_nat k)) (- 1022) = b - 1"
    using False b_ge by (simp add: ilog2_of_nat b_def)
  have u: "(2::rat) powi (b - 53) = inverse (2 ^ d)"
  proof -
    have "b - 53 = - int d" using b_le by (simp add: d_def)
    then show ?thesis by (simp add: power_int_minus)
  qed
  have m: "round_half_even (of_nat k / inverse (2 ^ d)) = int k * 2 ^ d"
  proof -
    have "(of_nat k :: rat) / inverse (2 ^ d) = of_int (int k * 2 ^ d)"
      by (simp add: divide_inverse)
    then show ?thesis by (simp only: round_half_even_of_int)
  qed
  show ?thesis
    using False b_le by (simp add: fl_def Let_def e u m)
qed

lemma ilog2_less:
  assumes "a < 2 ^ n" "0 < n"
  shows "ilog2 a < int n"
proof (cases "1 \<le> a")
  case True
  have "\<lfloor>a\<rfloor> < 2 ^ n"
    using assms(1) by (simp add: floor_less_iff)
  then have "bitlen \<lfloor>a\<rfloor> \<le> int n"
    by (simp add: bitlen_le_iff_power)
  then show ?thesis using True by (simp add: ilog2_def)
next
  case False
  have "0 \<le> bitlen (\<lceil>1 / a\<rceil> - 1)" by (rule bitlen_nonneg)
  then show ?thesis using False assms(2) by (simp add: ilog2_def)
qed

lemma fl_finite:
  assumes "\<bar>q\<bar> < 2 ^ 1023"
  shows "\<exists>r. fl q = Fin r"
proof (cases "q = 0")
  case True
  then show ?thesis by (simp add: fl_def)
next
  case False
  define e where "e = max (ilog2 \<bar>q\<bar>) (- 1022)"
  have "ilog2 \<bar>q\<bar> < 1023"
    using ilog2_less [of "\<bar>q\<bar>" 1023] assms by simp
  then have e: "\<not> 1024 \<le> e" "e \<noteq> 1023"
    by (simp_all add: e_def)
  have "fl q = (let u = 2 powi (e - 52); m = round_half_even (\<bar>q\<bar> / u)
     in if 1024 \<le> e \<or> (e = 1023 \<and> m = 2 ^ 53) then (if 0 < q then PInf else NInf)
        else Fin (if 0 < q then of_int m * u else - (of_int m * u)))"
    unfolding fl_def e_def Let_def using False by (simp only: if_False)
  then show ?thesis
    using e by (simp only: Let_def simp_thms if_False) blast
qed

text \<open>
  For evaluation: a non-negative integer below \<open>2 ^ 53\<close> needs no rounding; every other
  number goes through the rounding algorithm.
\<close>

lemma fl_code [code]:
  "fl q = (if 0 \<le> q \<and> q < 9007199254740992 \<and> of_int \<lfloor>q\<rfloor> = q then Fin q else
     if q = 0 then Fin 0 else
     let a = \<bar>q\<bar>;
         e = max (ilog2 a) (- 1022);
         u = 2 powi (e - 52);
         m = round_half_even (a / u)
     in if 1024 \<le> e \<or> (e = 1023 \<and> m = 2 ^ 53) then (if 0 < q then PInf else NInf)
        else Fin (if 0 < q then of_int m * u else - (of_int m * u)))"
proof (cases "0 \<le> q \<and> q < 9007199254740992 \<and> of_int \<lfloor>q\<rfloor> = q")
  case True
  define k where "k = nat \<lfloor>q\<rfloor>"
  from True have fq: "of_int \<lfloor>q\<rfloor> = q" and "0 \<le> q"
    by blast+
  then have "0 \<le> \<lfloor>q\<rfloor>"
    by simp
  then have "(of_nat k :: rat) = of_int \<lfloor>q\<rfloor>"
    by (simp add: k_def)
  then have "of_nat k = q"
    using fq by (rule trans)
  then have q: "q = of_nat k"
    by (rule sym)
  from True have "q < of_nat 9007199254740992"
    by simp
  then have "k < 9007199254740992"
    unfolding q by (simp only: of_nat_less_iff)
  then have "k < 2 ^ 53"
    by simp
  then have "fl (of_nat k) = Fin (of_nat k)"
    by (rule fl_of_nat)
  then have "fl q = Fin q"
    by (simp only: q)
  then show ?thesis
    by (simp only: if_P [OF True])
next
  case False
  then show ?thesis
    by (simp only: fl_def if_False)
qed

subsection \<open>Characters and digit strings\<close>

lemma is_digit_in_10_code:
  assumes "is_digit_in 10 c"
  shows "48 \<le> (of_char c :: int) \<and> (of_char c :: int) \<le> 57 \<and> digit_of c = Some (of_char c - 48)"
  using assms by (auto simp: is_digit_in_def digit_of_def Let_def split: if_splits)

lemma digit_not_ws: "is_digit_in 10 c \<Longrightarrow> \<not> is_ws c"
  by (drule is_digit_in_10_code) (simp add: is_ws_def Let_def)

lemma digit_not_special:
  assumes "is_digit_in 10 c"
  shows "c \<noteq> CHR ''-''" "c \<noteq> CHR ''+''" "c \<noteq> CHR '',''" "c \<noteq> CHR ''.''" "c \<noteq> CHR ''I''"
    "c \<noteq> CHR ''x''" "c \<noteq> CHR ''X''" "c \<noteq> CHR ''o''" "c \<noteq> CHR ''O''" "c \<noteq> CHR ''b''" "c \<noteq> CHR ''B''"
  using is_digit_in_10_code [OF assms] by auto

lemma trim_id:
  assumes "s \<noteq> []" "\<not> is_ws (hd s)" "\<not> is_ws (last s)"
  shows "trim s = s"
proof -
  have 1: "dropWhile is_ws s = s"
    using assms(1,2) by (cases s) simp_all
  have "dropWhile is_ws (rev s) = rev s"
    using assms(1,3) by (cases "rev s") (simp_all add: last_rev [symmetric] hd_rev)
  then show ?thesis
    by (simp add: trim_def 1)
qed

lemma trim_digits:
  assumes "ds \<noteq> []" "list_all (is_digit_in 10) ds"
  shows "trim ds = ds"
proof (rule trim_id [OF assms(1)])
  show "\<not> is_ws (hd ds)"
    using assms by (cases ds) (simp_all add: digit_not_ws)
  have "last ds \<in> set ds" using assms(1) by simp
  then show "\<not> is_ws (last ds)"
    using assms(2) by (simp add: list_all_iff digit_not_ws)
qed

lemma radix_val_nonneg_aux: "0 \<le> acc \<Longrightarrow> 0 \<le> b \<Longrightarrow>
  0 \<le> foldl (\<lambda>acc c. acc * b + (case digit_of c of Some d \<Rightarrow> d | None \<Rightarrow> 0)) acc ds"
proof (induction ds arbitrary: acc)
  case Nil
  then show ?case by simp
next
  case (Cons c ds)
  have "0 \<le> (case digit_of c of Some d \<Rightarrow> d | None \<Rightarrow> 0)"
    by (auto simp: digit_of_def Let_def)
  then have "0 \<le> acc * b + (case digit_of c of Some d \<Rightarrow> d | None \<Rightarrow> 0)"
    using Cons.prems by simp
  then show ?case
    using Cons.IH Cons.prems(2) by simp
qed

lemma radix_val_nonneg: "0 \<le> radix_val 10 ds"
  unfolding radix_val_def by (rule radix_val_nonneg_aux) simp_all

lemma fl_of_int:
  assumes "0 \<le> z" "z < 2 ^ 53"
  shows "fl (of_int z) = Fin (of_int z)"
proof -
  have "nat z < 2 ^ 53"
    using assms by (simp add: nat_less_iff)
  then have "fl (of_nat (nat z)) = Fin (of_nat (nat z))"
    by (rule fl_of_nat)
  then show ?thesis
    using assms(1) by simp
qed

lemma parse_non_decimal_digits:
  assumes "list_all (is_digit_in 10) ds"
  shows "parse_non_decimal ds = None"
proof (cases ds)
  case Nil
  then show ?thesis by (simp add: parse_non_decimal_def)
next
  case (Cons c0 r)
  show ?thesis
  proof (cases r)
    case Nil
    then show ?thesis using Cons by (simp add: parse_non_decimal_def)
  next
    case (Cons c1 r')
    then have "is_digit_in 10 c1"
      using assms \<open>ds = c0 # r\<close> by simp
    from digit_not_special [OF this] show ?thesis
      using Cons \<open>ds = c0 # r\<close> by (simp add: parse_non_decimal_def)
  qed
qed

lemma parse_unsigned_decimal_digits:
  assumes "ds \<noteq> []" "list_all (is_digit_in 10) ds"
  shows "parse_unsigned_decimal ds = Some (of_int (radix_val 10 ds))"
proof -
  have td: "takeWhile (is_digit_in 10) ds = ds" "dropWhile (is_digit_in 10) ds = []"
    using assms(2) by (simp_all add: list_all_iff)
  show ?thesis
    using assms(1) by (simp add: parse_unsigned_decimal_def parse_exponent_def Let_def td)
qed

lemma Number_dec:
  assumes "is_dec ds"
  shows "Number ds = Fin (of_int (radix_val 10 ds))"
proof -
  from assms have ne: "ds \<noteq> []" and dig: "list_all (is_digit_in 10) ds"
    and lt: "radix_val 10 ds < 2 ^ 53"
    by (simp_all add: is_dec_def)
  obtain c r where ds: "ds = c # r"
    using ne by (cases ds) auto
  then have c: "is_digit_in 10 c"
    using dig by simp
  have inf: "ds \<noteq> ''Infinity''"
    using digit_not_special(5) [OF c] ds by auto
  have sg: "(case ds of [] \<Rightarrow> (False, [])
              | c # r \<Rightarrow> if c = CHR ''+'' then (False, r)
                         else if c = CHR ''-'' then (True, r) else (False, ds)) = (False, ds)"
    using digit_not_special(1,2) [OF c] by (simp add: ds)
  have "fl (of_int (radix_val 10 ds)) = Fin (of_int (radix_val 10 ds))"
    using radix_val_nonneg lt by (rule fl_of_int)
  then show ?thesis
    using ne inf
    by (simp add: Number_def Let_def trim_digits [OF ne dig] parse_non_decimal_digits [OF dig]
        parse_unsigned_decimal_digits [OF ne dig] sg)
qed

subsection \<open>The loop over a range\<close>

lemma range_loop_stop:
  "\<not> js_le i endv \<Longrightarrow> range_loop i endv n acc = Some acc"
  by (subst range_loop.simps) simp

lemma range_loop_step:
  "js_le i endv \<Longrightarrow> range_loop i endv n acc =
     range_loop (js_add1 i) endv n (if in_bounds i n then set_add (js_sub1 i) acc else acc)"
  by (subst range_loop.simps) simp

lemma fl_two_53: "fl 9007199254740992 = Fin 9007199254740992"
  by code_simp

lemma fl_of_int_le:
  assumes "0 \<le> z" "z \<le> 2 ^ 53"
  shows "fl (of_int z) = Fin (of_int z)"
proof (cases "z = 2 ^ 53")
  case True
  then show ?thesis using fl_two_53 by simp
next
  case False
  then have "z < 2 ^ 53" using assms(2) by simp
  with assms(1) show ?thesis by (rule fl_of_int)
qed

lemma in_bounds_int: "in_bounds (Fin (of_int a)) n = (0 < a \<and> a \<le> int n)"
proof -
  have "(of_int a \<le> (of_nat n :: rat)) = (a \<le> int n)"
    by (metis of_int_le_iff of_int_of_nat_eq)
  then show ?thesis
    by (simp add: in_bounds_def)
qed

lemma in_bounds_Fin:
  assumes "in_bounds i n"
  obtains q where "i = Fin q" "0 < q" "q \<le> of_nat n"
  using assms by (cases i) (simp_all add: in_bounds_def)

lemma js_add1_int:
  assumes "0 \<le> a" "a < 2 ^ 53"
  shows "js_add1 (Fin (of_int a)) = Fin (of_int (a + 1))"
proof -
  have "fl (of_int (a + 1)) = Fin (of_int (a + 1))"
    using assms by (intro fl_of_int_le) simp_all
  then show ?thesis by simp
qed

lemma js_sub1_int:
  assumes "0 < a" "a \<le> 2 ^ 53"
  shows "js_sub1 (Fin (of_int a)) = Fin (of_int (a - 1))"
proof -
  have "fl (of_int (a - 1)) = Fin (of_int (a - 1))"
    using assms by (intro fl_of_int_le) simp_all
  then show ?thesis by simp
qed

lemma pages_of_empty: "b < a \<Longrightarrow> pages_of a b n = {}"
  by (auto simp: pages_of_def)

lemma pages_of_rec:
  assumes "a \<le> b"
  shows "pages_of a b n =
    (if 0 < a \<and> a \<le> int n then {Fin (of_int (a - 1))} else {}) \<union> pages_of (a + 1) b n"
proof -
  have "(a \<le> p \<and> p \<le> b \<and> 1 \<le> p \<and> p \<le> int n)
      = ((p = a \<and> 0 < a \<and> a \<le> int n) \<or> (a + 1 \<le> p \<and> p \<le> b \<and> 1 \<le> p \<and> p \<le> int n))" for p
    using assms by auto
  then show ?thesis
    unfolding pages_of_def by auto
qed

lemma set_set_add: "set (set_add x xs) = insert x (set xs)"
  by (auto simp: set_add_def)

lemma distinct_set_add: "distinct xs \<Longrightarrow> distinct (set_add x xs)"
  by (simp add: set_add_def)

lemma range_loop_ints:
  assumes "0 \<le> a" "b < 2 ^ 53"
  shows "\<exists>r. range_loop (Fin (of_int a)) (Fin (of_int b)) n acc = Some r
           \<and> set r = set acc \<union> pages_of a b n"
  using assms
proof (induction "nat (b + 1 - a)" arbitrary: a acc)
  case 0
  then have "b < a" by simp
  then show ?case
    by (simp add: range_loop_stop pages_of_empty)
next
  case (Suc k)
  then have ab: "a \<le> b" by simp
  then have a53: "a < 2 ^ 53" using Suc.prems(2) by simp
  let ?acc = "if in_bounds (Fin (of_int a)) n then set_add (js_sub1 (Fin (of_int a))) acc else acc"
  have k: "k = nat (b + 1 - (a + 1))" using Suc.hyps(2) by simp
  have "0 \<le> a + 1" using Suc.prems(1) by simp
  from Suc.hyps(1) [OF k this Suc.prems(2)]
  obtain r where r: "range_loop (Fin (of_int (a + 1))) (Fin (of_int b)) n ?acc = Some r"
    and sr: "set r = set ?acc \<union> pages_of (a + 1) b n"
    by blast
  have step: "range_loop (Fin (of_int a)) (Fin (of_int b)) n acc = Some r"
    using ab r by (simp add: range_loop_step js_add1_int [OF Suc.prems(1) a53] del: js_add1.simps)
  have "set ?acc = set acc \<union> (if 0 < a \<and> a \<le> int n then {Fin (of_int (a - 1))} else {})"
    using a53 by (auto simp: in_bounds_int set_set_add js_sub1_int simp del: js_sub1.simps)
  then have "set r = set acc \<union> pages_of a b n"
    using sr pages_of_rec [OF ab, of n] by auto
  with step show ?case by blast
qed

subsection \<open>What every returned array satisfies\<close>

lemma fin_set_Nil: "fin_set []"
  by (simp add: fin_set_def)

lemma fin_set_add: "fin_set xs \<Longrightarrow> fin_set (set_add (Fin q) xs)"
  by (simp add: fin_set_def set_add_def)

lemma all_Fin_map:
  "list_all (\<lambda>x. case x of Fin q \<Rightarrow> True | _ \<Rightarrow> False) xs \<Longrightarrow> \<exists>qs. xs = map Fin qs"
proof (induction xs)
  case Nil
  then show ?case by simp
next
  case (Cons x xs)
  then obtain qs where qs: "xs = map Fin qs" by auto
  obtain q where "x = Fin q" using Cons.prems by (cases x) auto
  with qs have "x # xs = map Fin (q # qs)" by simp
  then show ?case by (rule exI)
qed

lemma fin_set_map:
  assumes "fin_set xs"
  obtains qs where "xs = map Fin qs" "distinct qs"
proof -
  obtain qs where qs: "xs = map Fin qs"
    using assms all_Fin_map unfolding fin_set_def by blast
  then have "distinct qs"
    using assms by (simp add: fin_set_def distinct_map)
  with qs show ?thesis by (rule that)
qed

lemma js_sub1_fin:
  assumes "in_bounds i n" "n < 2 ^ 53"
  shows "\<exists>r. js_sub1 i = Fin r"
proof -
  from assms(1) obtain q where i: "i = Fin q" and q: "0 < q" "q \<le> of_nat n"
    by (rule in_bounds_Fin)
  have "(of_nat n :: rat) < of_nat (2 ^ 53)"
    using assms(2) by (simp only: of_nat_less_iff)
  then have "q < 2 ^ 53"
    using q(2) by simp
  moreover have "(2::rat) ^ 53 < 2 ^ 1023"
    by simp
  ultimately have "\<bar>q - 1\<bar> < 2 ^ 1023"
    using q(1) by (simp add: abs_less_iff)
  then show ?thesis
    unfolding i js_sub1.simps by (rule fl_finite)
qed

lemma range_loop_fin_set:
  assumes "range_loop i endv n acc = Some r" "n < 2 ^ 53" "fin_set acc"
  shows "fin_set r"
proof -
  have "n < 2 ^ 53 \<longrightarrow> fin_set acc \<longrightarrow> fin_set r"
  proof (rule range_loop.raw_induct
      [where P = "\<lambda>i endv n acc r. n < 2 ^ 53 \<longrightarrow> fin_set acc \<longrightarrow> fin_set r", OF _ assms(1)])
    fix f :: "jsnum \<Rightarrow> jsnum \<Rightarrow> nat \<Rightarrow> jsnum list \<Rightarrow> jsnum list option"
    fix i endv n acc r
    assume IH: "\<And>i endv n acc r. f i endv n acc = Some r
        \<Longrightarrow> n < 2 ^ 53 \<longrightarrow> fin_set acc \<longrightarrow> fin_set r"
    assume eq: "(if js_le i endv
        then f (js_add1 i) endv n (if in_bounds i n then set_add (js_sub1 i) acc else acc)
        else Some acc) = Some r"
    show "n < 2 ^ 53 \<longrightarrow> fin_set acc \<longrightarrow> fin_set r"
    proof (intro impI)
      assume n: "n < 2 ^ 53" and acc: "fin_set acc"
      show "fin_set r"
      proof (cases "js_le i endv")
        case False
        then show ?thesis using eq acc by simp
      next
        case True
        let ?acc = "if in_bounds i n then set_add (js_sub1 i) acc else acc"
        have "fin_set ?acc"
        proof (cases "in_bounds i n")
          case True
          then obtain q where "js_sub1 i = Fin q"
            using js_sub1_fin n by blast
          then show ?thesis using True acc by (simp add: fin_set_add)
        next
          case False
          then show ?thesis using acc by simp
        qed
        moreover have "f (js_add1 i) endv n ?acc = Some r"
          using eq True by simp
        ultimately show ?thesis
          using IH n by blast
      qed
    qed
  qed
  then show ?thesis using assms(2,3) by blast
qed

lemma process_part_fin_set:
  assumes "process_part n acc part = Some r" "n < 2 ^ 53" "fin_set acc"
  shows "fin_set r"
proof (cases "CHR ''-'' \<in> set (trim part)")
  case True
  show ?thesis
  proof (cases "map Number (split CHR ''-'' (trim part))")
    case Nil
    then show ?thesis using assms True by (simp add: process_part_def)
  next
    case (Cons start rest)
    show ?thesis
    proof (cases rest)
      case Nil
      then show ?thesis using assms True Cons by (simp add: process_part_def)
    next
      case (Cons endv rest')
      then have "range_loop start endv n acc = Some r"
        using assms(1) True \<open>map Number (split CHR ''-'' (trim part)) = start # rest\<close>
        by (simp add: process_part_def)
      then show ?thesis using assms(2,3) by (rule range_loop_fin_set)
    qed
  qed
next
  case False
  show ?thesis
  proof (cases "in_bounds (Number (trim part)) n")
    case True
    then obtain q where "js_sub1 (Number (trim part)) = Fin q"
      using js_sub1_fin assms(2) by blast
    then show ?thesis
      using assms(1,3) True False by (auto simp: process_part_def Let_def fin_set_add)
  next
    case F: False
    then show ?thesis
      using assms(1,3) False by (auto simp: process_part_def Let_def)
  qed
qed

lemma forEach_parts_fin_set:
  assumes "forEach_parts n parts acc = Some r" "n < 2 ^ 53" "fin_set acc"
  shows "fin_set r"
  using assms
proof (induction parts arbitrary: acc)
  case Nil
  then show ?case by simp
next
  case (Cons p parts)
  from Cons.prems(1) obtain acc' where 1: "process_part n acc p = Some acc'"
    and 2: "forEach_parts n parts acc' = Some r"
    by (auto split: option.splits)
  have "fin_set acc'"
    using 1 Cons.prems(2,3) by (rule process_part_fin_set)
  with Cons.IH [OF 2 Cons.prems(2)] show ?case .
qed

lemma insort_num_Fin: "insort_num (Fin q) (map Fin qs) = map Fin (insort q qs)"
  by (induction qs) simp_all

lemma sort_num_Fin: "sort_num (map Fin qs) = map Fin (sort qs)"
  by (induction qs) (simp_all add: sort_num_def sort_key_def insort_num_Fin)

lemma sort_num_fin_set:
  assumes "fin_set xs"
  shows "sorted_wrt js_lt (sort_num xs) \<and> distinct (sort_num xs) \<and> set (sort_num xs) = set xs"
proof -
  from assms obtain qs where xs: "xs = map Fin qs" and d: "distinct qs"
    by (rule fin_set_map)
  have "sorted_wrt (<) (sort qs)"
    using d by (simp add: strict_sorted_iff)
  then have "sorted_wrt js_lt (map Fin (sort qs))"
    by (simp add: sorted_wrt_map)
  moreover have "distinct (map Fin (sort qs))"
    using d by (simp add: distinct_map inj_on_def)
  ultimately show ?thesis
    by (simp add: xs sort_num_Fin)
qed

lemma getPageIndices_ascending:
  assumes "getPageIndices s n = Some (Indices r)" "n < 2 ^ 53"
  shows "sorted_wrt js_lt r \<and> distinct r"
proof -
  from assms(1) obtain xs where xs: "forEach_parts n (split CHR '','' s) [] = Some xs"
    and r: "r = sort_num xs"
    by (auto simp: getPageIndices_def split: if_splits option.splits)
  have "fin_set xs"
    using xs assms(2) fin_set_Nil by (rule forEach_parts_fin_set)
  then show ?thesis
    unfolding r using sort_num_fin_set by blast
qed

subsection \<open>Tokens of the grammar\<close>

lemma split_not_Nil: "split c s \<noteq> []"
  by (induction s) (simp_all add: Let_def)

lemma split_no_sep: "c \<notin> set s \<Longrightarrow> split c s = [s]"
  by (induction s) (auto simp: Let_def)

lemma split_at_sep: "c \<notin> set a \<Longrightarrow> split c (a @ c # b) = a # split c b"
  by (induction a) (auto simp: Let_def)

lemma split_sep_length:
  assumes "c \<in> set s"
  shows "\<exists>x y rest. split c s = x # y # rest"
proof -
  from assms obtain a b where s: "s = a @ c # b" and a: "c \<notin> set a"
    by (auto dest: split_list_first)
  obtain y rest where "split c b = y # rest"
    using split_not_Nil [of c b] by (cases "split c b") auto
  then show ?thesis
    using split_at_sep [OF a, of b] s by simp
qed

lemma is_dec_no_dash: "is_dec ds \<Longrightarrow> CHR ''-'' \<notin> set ds"
  using digit_not_special(1) by (auto simp: is_dec_def list_all_iff)

lemma set_insort_num: "set (insort_num x xs) = insert x (set xs)"
  by (induction xs) auto

lemma set_sort_num: "set (sort_num xs) = set xs"
  by (induction xs) (simp_all add: sort_num_def set_insort_num)

lemma is_dec_bounds: "is_dec ds \<Longrightarrow> 0 \<le> radix_val 10 ds \<and> radix_val 10 ds < 2 ^ 53"
  by (simp add: is_dec_def radix_val_nonneg)

lemma process_part_page:
  assumes "trim p = a" "is_dec a"
  shows "process_part n acc p =
    Some (if 0 < radix_val 10 a \<and> radix_val 10 a \<le> int n
          then set_add (Fin (of_int (radix_val 10 a - 1))) acc else acc)"
proof -
  have "radix_val 10 a \<le> 2 ^ 53"
    using is_dec_bounds [OF assms(2)] by simp
  then show ?thesis
    using is_dec_no_dash [OF assms(2)]
    by (simp add: process_part_def assms(1) Number_dec [OF assms(2)] in_bounds_int js_sub1_int
        del: js_sub1.simps)
qed

lemma process_part_range:
  assumes "trim p = a @ CHR ''-'' # b" "is_dec a" "is_dec b"
  shows "\<exists>r. process_part n acc p = Some r
    \<and> set r = set acc \<union> pages_of (radix_val 10 a) (radix_val 10 b) n"
proof -
  have sp: "split CHR ''-'' (a @ CHR ''-'' # b) = [a, b]"
    using is_dec_no_dash [OF assms(2)] is_dec_no_dash [OF assms(3)]
    by (simp add: split_at_sep split_no_sep)
  have "process_part n acc p =
      range_loop (Fin (of_int (radix_val 10 a))) (Fin (of_int (radix_val 10 b))) n acc"
    by (simp add: process_part_def assms(1) sp Number_dec [OF assms(2)] Number_dec [OF assms(3)])
  then show ?thesis
    using range_loop_ints [of "radix_val 10 a" "radix_val 10 b" n acc]
      is_dec_bounds [OF assms(2)] is_dec_bounds [OF assms(3)]
    by simp
qed

lemma valid_token_cases:
  assumes "valid_token t"
  obtains (page) "is_dec t"
  | (range) a b where "t = a @ CHR ''-'' # b" "is_dec a" "is_dec b"
proof (cases "dropWhile (\<lambda>c. c \<noteq> CHR ''-'') t")
  case Nil
  then have tw: "takeWhile (\<lambda>c. c \<noteq> CHR ''-'') t = t"
    by (metis append_Nil2 takeWhile_dropWhile_id)
  have "is_dec t"
    using assms unfolding valid_token_def Let_def Nil tw by simp
  then show ?thesis
    by (rule page)
next
  case (Cons c b)
  then have "c = CHR ''-''"
    using hd_dropWhile [of "\<lambda>c. c \<noteq> CHR ''-''" t] by simp
  then have "t = takeWhile (\<lambda>c. c \<noteq> CHR ''-'') t @ CHR ''-'' # b"
    using Cons takeWhile_dropWhile_id [of "\<lambda>c. c \<noteq> CHR ''-''" t] by simp
  then show ?thesis
    using assms Cons range by (simp add: valid_token_def)
qed

lemma pages_of_indices: "pages_of a b n \<subseteq> {Fin (of_nat k) | k. k < n}"
proof
  fix x assume "x \<in> pages_of a b n"
  then obtain p where x: "x = Fin (of_int (p - 1))" and p: "1 \<le> p" "p \<le> int n"
    by (auto simp: pages_of_def)
  have "(of_int (p - 1) :: rat) = of_nat (nat (p - 1))"
    using p(1) by simp
  moreover have "nat (p - 1) < n"
    using p by linarith
  ultimately show "x \<in> {Fin (of_nat k) | k. k < n}"
    using x by blast
qed

lemma process_part_valid:
  assumes "valid_token (trim p)" "set acc \<subseteq> {Fin (of_nat k) | k. k < n}"
  shows "\<exists>r. process_part n acc p = Some r \<and> set r \<subseteq> {Fin (of_nat k) | k. k < n}"
  using assms(1)
proof (cases rule: valid_token_cases)
  case page
  let ?v = "radix_val 10 (trim p)"
  have "Fin (of_int (?v - 1)) \<in> {Fin (of_nat k) | k. k < n}" if "0 < ?v" "?v \<le> int n"
  proof -
    have "Fin (of_int (?v - 1)) \<in> pages_of ?v ?v n"
      using that by (auto simp: pages_of_def)
    then show ?thesis using pages_of_indices by blast
  qed
  then show ?thesis
    using assms(2) by (simp add: process_part_page [OF refl page] set_set_add)
next
  case (range a b)
  then show ?thesis
    using process_part_range [OF range, of n acc] pages_of_indices [of "radix_val 10 a" "radix_val 10 b" n]
      assms(2) by auto
qed

lemma forEach_parts_valid:
  assumes "list_all (\<lambda>p. valid_token (trim p)) parts" "set acc \<subseteq> {Fin (of_nat k) | k. k < n}"
  shows "\<exists>r. forEach_parts n parts acc = Some r \<and> set r \<subseteq> {Fin (of_nat k) | k. k < n}"
  using assms
proof (induction parts arbitrary: acc)
  case Nil
  then show ?case by simp
next
  case (Cons p parts)
  then obtain acc' where 1: "process_part n acc p = Some acc'"
    and 2: "set acc' \<subseteq> {Fin (of_nat k) | k. k < n}"
    using process_part_valid [of p acc n] by auto
  from Cons.IH [OF _ 2] Cons.prems(1) show ?case
    by (simp add: 1)
qed

lemma getPageIndices_valid:
  assumes "valid_expr s"
  shows "\<exists>r. getPageIndices s n = Some (Indices r) \<and> set r \<subseteq> {Fin (of_nat k) | k. k < n}"
proof -
  from assms have ne: "s \<noteq> []" and v: "list_all (\<lambda>p. valid_token (trim p)) (split CHR '','' s)"
    by (simp_all add: valid_expr_def)
  obtain xs where "forEach_parts n (split CHR '','' s) [] = Some xs"
    and "set xs \<subseteq> {Fin (of_nat k) | k. k < n}"
    using forEach_parts_valid [OF v, of "[]" n] by auto
  then show ?thesis
    using ne by (simp add: getPageIndices_def set_sort_num)
qed

subsection \<open>Ranges on which the loop does not end\<close>

lemma range_loop_stall:
  assumes "js_le i endv" "js_add1 i = i" "\<not> in_bounds i n"
  shows "range_loop i endv n acc = None"
proof (cases "range_loop i endv n acc")
  case None
  then show ?thesis .
next
  case (Some y)
  have "\<not> (i = i \<and> endv = endv \<and> n = n)"
  proof (rule range_loop.raw_induct
      [where P = "\<lambda>i' endv' n' acc' y'. \<not> (i' = i \<and> endv' = endv \<and> n' = n)", OF _ Some])
    fix f :: "jsnum \<Rightarrow> jsnum \<Rightarrow> nat \<Rightarrow> jsnum list \<Rightarrow> jsnum list option"
    fix i' endv' n' acc' y'
    assume IH: "\<And>i' endv' n' acc' y'. f i' endv' n' acc' = Some y'
        \<Longrightarrow> \<not> (i' = i \<and> endv' = endv \<and> n' = n)"
    assume eq: "(if js_le i' endv'
        then f (js_add1 i') endv' n' (if in_bounds i' n' then set_add (js_sub1 i') acc' else acc')
        else Some acc') = Some y'"
    show "\<not> (i' = i \<and> endv' = endv \<and> n' = n)"
    proof
      assume *: "i' = i \<and> endv' = endv \<and> n' = n"
      then have "f i endv n acc' = Some y'"
        using eq assms by simp
      then show False
        using IH by blast
    qed
  qed
  then show ?thesis by simp
qed

lemma stall_two_53: "js_add1 (Fin 9007199254740992) = Fin 9007199254740992"
  by code_simp

lemma hang0: "getPageIndices ''9007199254740992-9007199254740992'' 3 = None"
proof -
  have t: "trim ''9007199254740992-9007199254740992'' = ''9007199254740992-9007199254740992''"
    by code_simp
  have s: "split CHR '','' ''9007199254740992-9007199254740992'' = [''9007199254740992-9007199254740992'']"
    by code_simp
  have m: "Number ''9007199254740992'' = Fin 9007199254740992"
    by code_simp
  have "range_loop (Fin 9007199254740992) (Fin 9007199254740992) 3 [] = None"
    by (rule range_loop_stall) (simp_all add: stall_two_53 in_bounds_def del: js_add1.simps)
  then have "process_part 3 [] ''9007199254740992-9007199254740992'' = None"
    by (simp add: process_part_def t m)
  then show ?thesis
    by (simp add: getPageIndices_def s)
qed

subsection \<open>What an expression of the grammar resolves to\<close>

lemma pages_of_single:
  "pages_of v v n = (if 0 < v \<and> v \<le> int n then {Fin (of_int (v - 1))} else {})"
  using pages_of_rec [of v v n] pages_of_empty [of v "v + 1" n] by simp

lemma token_pages_page:
  assumes "is_dec t"
  shows "token_pages t n = pages_of (radix_val 10 t) (radix_val 10 t) n"
proof -
  have nd: "\<forall>c\<in>set t. c \<noteq> CHR ''-''"
    using is_dec_no_dash [OF assms] by auto
  have tw: "takeWhile (\<lambda>c. c \<noteq> CHR ''-'') t = t" "dropWhile (\<lambda>c. c \<noteq> CHR ''-'') t = []"
    using nd by simp_all
  show ?thesis
    by (simp add: token_pages_def tw)
qed

lemma token_pages_range:
  assumes "is_dec a" "is_dec b"
  shows "token_pages (a @ CHR ''-'' # b) n = pages_of (radix_val 10 a) (radix_val 10 b) n"
proof -
  have nd: "\<forall>c\<in>set a. c \<noteq> CHR ''-''"
    using is_dec_no_dash [OF assms(1)] by auto
  have tw: "takeWhile (\<lambda>c. c \<noteq> CHR ''-'') (a @ CHR ''-'' # b) = a"
    "dropWhile (\<lambda>c. c \<noteq> CHR ''-'') (a @ CHR ''-'' # b) = CHR ''-'' # b"
    using nd by (simp_all add: takeWhile_append1 dropWhile_append1 takeWhile_append2 dropWhile_append2)
  show ?thesis
    by (simp add: token_pages_def tw)
qed

lemma process_part_token_pages:
  assumes "valid_token (trim p)"
  shows "\<exists>r. process_part n acc p = Some r \<and> set r = set acc \<union> token_pages (trim p) n"
  using assms
proof (cases rule: valid_token_cases)
  case page
  show ?thesis
    by (simp add: process_part_page [OF refl page] token_pages_page [OF page] pages_of_single
        set_set_add)
next
  case (range a b)
  show ?thesis
    using process_part_range [OF range, of n acc]
    by (simp add: range(1) token_pages_range [OF range(2,3)])
qed

lemma forEach_parts_token_pages:
  assumes "list_all (\<lambda>p. valid_token (trim p)) parts"
  shows "\<exists>r. forEach_parts n parts acc = Some r
    \<and> set r = set acc \<union> \<Union> (set (map (\<lambda>p. token_pages (trim p) n) parts))"
  using assms
proof (induction parts arbitrary: acc)
  case Nil
  then show ?case by simp
next
  case (Cons p parts)
  then obtain acc' where 1: "process_part n acc p = Some acc'"
    and 2: "set acc' = set acc \<union> token_pages (trim p) n"
    using process_part_token_pages [of p n acc] by auto
  from Cons.prems have "list_all (\<lambda>p. valid_token (trim p)) parts" by simp
  from Cons.IH [OF this, of acc'] obtain r where 3: "forEach_parts n parts acc' = Some r"
    and 4: "set r = set acc' \<union> \<Union> (set (map (\<lambda>p. token_pages (trim p) n) parts))"
    by blast
  have "forEach_parts n (p # parts) acc = Some r"
    by (simp add: 1 3)
  moreover have "set r = set acc \<union> \<Union> (set (map (\<lambda>p. token_pages (trim p) n) (p # parts)))"
    using 2 4 by auto
  ultimately show ?case by blast
qed

lemma getPageIndices_expr_pages:
  assumes "valid_expr s"
  shows "\<exists>r. getPageIndices s n = Some (Indices r) \<and> set r = expr_pages s n"
proof -
  from assms have ne: "s \<noteq> []" and v: "list_all (\<lambda>p. valid_token (trim p)) (split CHR '','' s)"
    by (simp_all add: valid_expr_def)
  obtain xs where 1: "forEach_parts n (split CHR '','' s) [] = Some xs"
    and 2: "set xs = expr_pages s n"
    using forEach_parts_token_pages [OF v, of n "[]"] by (auto simp: expr_pages_def)
  show ?thesis
    using ne by (simp add: getPageIndices_def 1 set_sort_num 2)
qed

lemma getPageIndices_out_of_bounds:
  assumes "valid_expr s" "expr_pages s n = {}"
  shows "getPageIndices s n = Some (Indices [])"
  using getPageIndices_expr_pages [OF assms(1), of n] assms(2) by auto

subsection \<open>Copying the pages that an expression of the grammar selects\<close>

lemma indices_nat_list:
  assumes "set r \<subseteq> {Fin (of_nat k) | k. k < n}"
  shows "\<exists>ks. r = map (\<lambda>k. Fin (of_nat k)) ks \<and> list_all (\<lambda>k. k < n) ks"
  using assms
proof (induction r)
  case Nil
  then show ?case by simp
next
  case (Cons x r)
  then obtain ks where ks: "r = map (\<lambda>k. Fin (of_nat k)) ks" "list_all (\<lambda>k. k < n) ks"
    by auto
  from Cons.prems obtain k where k: "x = Fin (of_nat k)" "k < n"
    by auto
  have "x # r = map (\<lambda>k. Fin (of_nat k)) (k # ks) \<and> list_all (\<lambda>k. k < n) (k # ks)"
    using ks k by simp
  then show ?case by (rule exI)
qed

lemma page_at_nat: "k < length srcPages \<Longrightarrow> page_at srcPages (Fin (of_nat k)) = Some (srcPages ! k)"
  by (simp add: page_at_def)

lemma copyPages_nat_list:
  assumes "list_all (\<lambda>k. k < length srcPages) ks"
  shows "copyPages srcPages (map (\<lambda>k. Fin (of_nat k)) ks) = Some (map ((!) srcPages) ks)"
  using assms by (induction ks) (simp_all add: page_at_nat)

section \<open>The claims\<close>

subsection \<open>C7\<close>

text \<open>
  C7, as the code has it: resolving the range expression \<^verbatim>\<open>1-3, 5\<close> against a 10-page
  document yields the zero-based indices 0, 1, 2 and 4: page 5 is index 4.
\<close>

theorem C7_resolve_example:
  "getPageIndices ''1-3, 5'' 10 = Some (Indices [Fin 0, Fin 1, Fin 2, Fin 4])"
  by code_simp

text \<open>The array that C7 states, with 5 as its last index, is not what is returned.\<close>

theorem C7_counterexample:
  "getPageIndices ''1-3, 5'' 10 \<noteq> Some (Indices [Fin 0, Fin 1, Fin 2, Fin 5])"
  by code_simp

subsection \<open>C3\<close>

text \<open>
  C3: for every grayscale flag and duplex directive, the job attributes hold
  \<^verbatim>\<open>print-color-mode = monochrome\<close> exactly when grayscale is set, hold
  \<^verbatim>\<open>sides = two-sided-long-edge\<close> exactly when the directive is \<^verbatim>\<open>auto\<close>, and hold
  nothing else; without grayscale and with the directive \<^verbatim>\<open>odd\<close> they are empty.
\<close>

theorem C3_job_attributes:
  "job_attributes_tag gray duplexType ''print-color-mode''
      = (if gray then Some ''monochrome'' else None)
   \<and> job_attributes_tag gray duplexType ''sides''
      = (if duplexType = Some ''auto'' then Some ''two-sided-long-edge'' else None)
   \<and> dom (job_attributes_tag gray duplexType)
      = (if gray then {''print-color-mode''} else {})
        \<union> (if duplexType = Some ''auto'' then {''sides''} else {})
   \<and> job_attributes_tag False (Some ''odd'') = Map.empty"
  by (auto simp: job_attributes_tag_def)

subsection \<open>C5\<close>

lemma parity_loop_eq:
  "i \<le> length pdfDoc \<Longrightarrow> parity_loop d pdfDoc i newPdf =
     newPdf @ map ((!) pdfDoc)
       (filter (\<lambda>i. (d = ''odd'' \<and> i mod 2 = 0) \<or> (d = ''even'' \<and> i mod 2 \<noteq> 0)) [i..<length pdfDoc])"
proof (induction d pdfDoc i newPdf rule: parity_loop.induct)
  case (1 d pdfDoc i newPdf)
  show ?case
  proof (cases "i < length pdfDoc")
    case True
    then have u: "[i..<length pdfDoc] = i # [i + 1..<length pdfDoc]"
      by (simp add: upt_rec)
    from True have "i + 1 \<le> length pdfDoc" by simp
    from 1(1) [OF True refl this] True show ?thesis
      by (subst parity_loop.simps) (simp add: u Let_def)
  next
    case False
    then show ?thesis
      using 1(2) by (subst parity_loop.simps) simp
  qed
qed

text \<open>
  C5: for every document, the split with directive \<^verbatim>\<open>odd\<close> keeps exactly the pages at
  the zero-based indices with \<open>i mod 2 = 0\<close> (pages 1, 3, 5, ...), the split with
  directive \<^verbatim>\<open>even\<close> keeps exactly the other ones, and both keep them in the order of
  the document.
\<close>

theorem C5_parity_split:
  "parity_loop ''odd'' pdfDoc 0 [] = map ((!) pdfDoc) (filter (\<lambda>i. i mod 2 = 0) [0..<length pdfDoc])
   \<and> parity_loop ''even'' pdfDoc 0 [] = map ((!) pdfDoc) (filter (\<lambda>i. i mod 2 \<noteq> 0) [0..<length pdfDoc])
   \<and> apply_duplex (Some ''odd'') (pdfDoc, modified) = (parity_loop ''odd'' pdfDoc 0 [], True)
   \<and> apply_duplex (Some ''even'') (pdfDoc, modified) = (parity_loop ''even'' pdfDoc 0 [], True)"
  by (simp add: parity_loop_eq apply_duplex_def)

subsection \<open>C9\<close>

lemma length_filter_even: "length (filter (\<lambda>i. i mod 2 = 0) [0..<n]) = (n + 1) div 2"
proof (induction n)
  case 0
  then show ?case by simp
next
  case (Suc n)
  have "Suc n div 2 = Suc (n div 2)" if "n mod 2 \<noteq> 0"
    using that by presburger
  moreover have "(Suc n + 1) div 2 = Suc ((n + 1) div 2)" if "n mod 2 = 0"
    using that by presburger
  ultimately show ?case
    using Suc by auto
qed

lemma length_parity_odd: "length (parity_loop ''odd'' pdfDoc 0 []) = (length pdfDoc + 1) div 2"
  by (simp add: parity_loop_eq length_filter_even)

lemma parity_odd_short:
  assumes "length S \<le> 1"
  shows "parity_loop ''odd'' S 0 [] = S"
proof (cases S)
  case Nil
  then show ?thesis by (simp add: parity_loop_eq)
next
  case (Cons x xs)
  then have "xs = []" using assms by simp
  then show ?thesis using Cons by (simp add: parity_loop_eq)
qed

text \<open>
  C9, as the code has it: for every document, applying the \<^verbatim>\<open>odd\<close> split again to the
  \<^verbatim>\<open>odd\<close> selection keeps the pages at the even zero-based positions of that selection,
  half of its pages rounded up; it keeps every page of the selection exactly when the
  original document has at most two pages.
\<close>

theorem C9_reapply_odd:
  "parity_loop ''odd'' (parity_loop ''odd'' pdfDoc 0 []) 0 []
      = map ((!) (parity_loop ''odd'' pdfDoc 0 []))
          (filter (\<lambda>i. i mod 2 = 0) [0..<length (parity_loop ''odd'' pdfDoc 0 [])])
   \<and> length (parity_loop ''odd'' (parity_loop ''odd'' pdfDoc 0 []) 0 [])
      = (length (parity_loop ''odd'' pdfDoc 0 []) + 1) div 2
   \<and> ((parity_loop ''odd'' (parity_loop ''odd'' pdfDoc 0 []) 0 [] = parity_loop ''odd'' pdfDoc 0 [])
      = (length pdfDoc \<le> 2))"
proof -
  let ?S = "parity_loop ''odd'' pdfDoc 0 []"
  have 1: "parity_loop ''odd'' ?S 0 [] = map ((!) ?S) (filter (\<lambda>i. i mod 2 = 0) [0..<length ?S])"
    by (simp add: parity_loop_eq)
  have 2: "length (parity_loop ''odd'' ?S 0 []) = (length ?S + 1) div 2"
    by (rule length_parity_odd)
  have 3: "(parity_loop ''odd'' ?S 0 [] = ?S) = (length pdfDoc \<le> 2)"
  proof
    assume "parity_loop ''odd'' ?S 0 [] = ?S"
    then have "(length ?S + 1) div 2 = length ?S"
      using 2 by simp
    then have "length ?S \<le> 1" by linarith
    then show "length pdfDoc \<le> 2"
      by (simp add: length_parity_odd)
  next
    assume "length pdfDoc \<le> 2"
    then have "length ?S \<le> 1"
      by (simp add: length_parity_odd)
    then show "parity_loop ''odd'' ?S 0 [] = ?S"
      by (rule parity_odd_short)
  qed
  from 1 2 3 show ?thesis by blast
qed

text \<open>
  Of a document with three pages the \<^verbatim>\<open>odd\<close> split keeps pages 1 and 3; applied
  again it keeps page 1 only.
\<close>

theorem C9_counterexample:
  "parity_loop ''odd'' [1, 2, 3 :: nat] 0 [] = [1, 3]
   \<and> parity_loop ''odd'' (parity_loop ''odd'' [1, 2, 3 :: nat] 0 []) 0 [] = [1]"
  by code_simp

subsection \<open>C2\<close>

lemma parity_loop_positions:
  assumes "d = ''odd'' \<or> d = ''even''"
  shows "parity_loop d doc 0 [] = map ((!) doc)
     (filter (\<lambda>i. if d = ''odd'' then i mod 2 = 0 else i mod 2 \<noteq> 0) [0..<length doc])"
  using assms by (auto simp: parity_loop_eq intro!: arg_cong [where f = "map ((!) doc)"] filter_cong)

lemma file_buffer_parity:
  assumes "mimetype f = ''application/pdf''"
    and "load lib (content f) = Some pdfDoc"
    and "apply_page_range pageRange pdfDoc = Some (Ok (filtered, modified))"
    and "d = ''odd'' \<or> d = ''even''"
  shows "file_buffer lib f pageRange (Some d) = Some (Ok (save lib (parity_loop d filtered 0 [])))"
proof -
  have "apply_duplex (Some d) (filtered, modified) = (parity_loop d filtered 0 [], True)"
    using assms(4) by (auto simp: apply_duplex_def)
  then show ?thesis
    using assms(1,2) by (simp add: file_buffer_def assms(3))
qed

text \<open>
  C2, as the code has it: when a request for a PDF has a page range of the grammar
  (page numbers and \<^verbatim>\<open>start-end\<close> ranges of page numbers below \<open>2 ^ 53\<close>) and the duplex
  directive \<^verbatim>\<open>odd\<close> or \<^verbatim>\<open>even\<close>, the handler does produce a document to send. The range
  resolves to page indices of the document; the page range is applied first: the pages
  at these indices are copied, or the whole document is kept when there is no index;
  and the split is then applied to the document that the range left, by the positions
  of the pages in that document (not by their page numbers in the original).
\<close>

theorem C2_range_then_parity:
  assumes "mimetype f = ''application/pdf''"
    and "load lib (content f) = Some pdfDoc"
    and "valid_expr rangeStr"
    and "d = ''odd'' \<or> d = ''even''"
  shows "\<exists>ks filtered.
      getPageIndices rangeStr (length pdfDoc) = Some (Indices (map (\<lambda>k. Fin (of_nat k)) ks))
    \<and> list_all (\<lambda>k. k < length pdfDoc) ks
    \<and> filtered = (if ks = [] then pdfDoc else map ((!) pdfDoc) ks)
    \<and> apply_page_range (Some rangeStr) pdfDoc = Some (Ok (filtered, ks \<noteq> []))
    \<and> file_buffer lib f (Some rangeStr) (Some d) = Some (Ok (save lib (parity_loop d filtered 0 [])))
    \<and> parity_loop d filtered 0 [] = map ((!) filtered)
          (filter (\<lambda>i. if d = ''odd'' then i mod 2 = 0 else i mod 2 \<noteq> 0) [0..<length filtered])"
proof -
  obtain r where r: "getPageIndices rangeStr (length pdfDoc) = Some (Indices r)"
    and sub: "set r \<subseteq> {Fin (of_nat k) | k. k < length pdfDoc}"
    using getPageIndices_valid [OF assms(3)] by blast
  obtain ks where ks: "r = map (\<lambda>k. Fin (of_nat k)) ks" and lt: "list_all (\<lambda>k. k < length pdfDoc) ks"
    using indices_nat_list [OF sub] by blast
  define filtered where "filtered = (if ks = [] then pdfDoc else map ((!) pdfDoc) ks)"
  have ne: "rangeStr \<noteq> []"
    using assms(3) by (simp add: valid_expr_def)
  have ap: "apply_page_range (Some rangeStr) pdfDoc = Some (Ok (filtered, ks \<noteq> []))"
    using ne by (simp add: apply_page_range_def r ks copyPages_nat_list [OF lt] filtered_def)
  have fb: "file_buffer lib f (Some rangeStr) (Some d)
      = Some (Ok (save lib (parity_loop d filtered 0 [])))"
    using assms(1,2) ap assms(4) by (rule file_buffer_parity)
  have pl: "parity_loop d filtered 0 [] = map ((!) filtered)
          (filter (\<lambda>i. if d = ''odd'' then i mod 2 = 0 else i mod 2 \<noteq> 0) [0..<length filtered])"
    using assms(4) by (rule parity_loop_positions)
  from r [unfolded ks] lt filtered_def ap fb pl show ?thesis by blast
qed

text \<open>
  A PDF of ten pages, the range \<^verbatim>\<open>2-4\<close> and the directive \<^verbatim>\<open>odd\<close>: the range resolves
  to the indices 1, 2, 3, and the document sent has two pages, pages 2 and 4 of the
  original.
\<close>

theorem C2_witness:
  "valid_expr ''2-4''
   \<and> getPageIndices ''2-4'' 10 = Some (Indices [Fin 1, Fin 2, Fin 3])
   \<and> file_buffer list_lib
       \<lparr> originalname = ''ten.pdf'', mimetype = ''application/pdf'',
         content = [1, 2, 3, 4, 5, 6, 7, 8, 9, 10] \<rparr>
       (Some ''2-4'') (Some ''odd'') = Some (Ok [2, 4])"
proof -
  let ?f = "\<lparr> originalname = ''ten.pdf'', mimetype = ''application/pdf'',
       content = [1, 2, 3, 4, 5, 6, 7, 8, 9, 10 :: nat] \<rparr>"
  let ?doc = "[1, 2, 3, 4, 5, 6, 7, 8, 9, 10 :: nat]"
  have h1: "mimetype ?f = ''application/pdf''" by simp
  have h2: "load list_lib (content ?f) = Some ?doc"
    by (simp add: list_lib_def)
  have h3: "valid_expr ''2-4''" by code_simp
  have h4: "''odd'' = ''odd'' \<or> ''odd'' = ''even''" by simp
  have g: "getPageIndices ''2-4'' (length ?doc) = Some (Indices [Fin 1, Fin 2, Fin 3])"
    by code_simp
  have g10: "getPageIndices ''2-4'' 10 = Some (Indices [Fin 1, Fin 2, Fin 3])"
    by code_simp
  have p: "parity_loop ''odd'' [2, 3, 4 :: nat] 0 [] = [2, 4]"
    by code_simp
  from C2_range_then_parity [OF h1 h2 h3 h4]
  obtain ks filtered where
    1: "getPageIndices ''2-4'' (length ?doc) = Some (Indices (map (\<lambda>k. Fin (of_nat k)) ks))"
    and 2: "filtered = (if ks = [] then ?doc else map ((!) ?doc) ks)"
    and 3: "file_buffer list_lib ?f (Some ''2-4'') (Some ''odd'')
        = Some (Ok (save list_lib (parity_loop ''odd'' filtered 0 [])))"
    by blast
  from 1 g have "map (\<lambda>k. Fin (of_nat k)) ks = [Fin 1, Fin 2, Fin 3]"
    by simp
  then have "ks = [1, 2, 3]"
    by (auto simp: map_eq_Cons_conv)
  then have "filtered = [2, 3, 4]"
    using 2 by simp
  then have "file_buffer list_lib ?f (Some ''2-4'') (Some ''odd'') = Some (Ok [2, 4])"
    using 3 by (simp add: p list_lib_def)
  with h3 g10 show ?thesis by blast
qed

text \<open>
  With the range \<^verbatim>\<open>1.5\<close> and the directive \<^verbatim>\<open>odd\<close> no document is sent: the range
  resolves to the index \<open>1/2\<close>, which is no page, the copy throws and the handler answers
  with an internal server error. With the range from \<open>2 ^ 53\<close> to \<open>2 ^ 53\<close> the handler
  does not answer.
\<close>

theorem C2_counterexample:
  "file_buffer list_lib
     \<lparr> originalname = ''three.pdf'', mimetype = ''application/pdf'', content = [1, 2, 3] \<rparr>
     (Some ''1.5'') (Some ''odd'') = Some Thrown
   \<and> print_handler list_lib accepting_printer
        \<lparr> req_file = Some \<lparr> originalname = ''three.pdf'', mimetype = ''application/pdf'',
                              content = [1, 2, 3] \<rparr>,
          printerUrl = Some ''ipp://printer'', duplex = Some ''odd'', pages = Some ''1.5'',
          grayscale = None \<rparr>
      = Some InternalServerError
   \<and> file_buffer list_lib
     \<lparr> originalname = ''three.pdf'', mimetype = ''application/pdf'', content = [1, 2, 3] \<rparr>
     (Some ''9007199254740992-9007199254740992'') (Some ''odd'') = None"
proof -
  let ?f = "\<lparr> originalname = ''three.pdf'', mimetype = ''application/pdf'',
       content = [1, 2, 3 :: nat] \<rparr>"
  have 1: "file_buffer list_lib ?f (Some ''1.5'') (Some ''odd'') = Some Thrown"
    by code_simp
  have 2: "print_handler list_lib accepting_printer
        \<lparr> req_file = Some ?f, printerUrl = Some ''ipp://printer'', duplex = Some ''odd'',
          pages = Some ''1.5'', grayscale = None \<rparr> = Some InternalServerError"
    by code_simp
  have "apply_page_range (Some ''9007199254740992-9007199254740992'') [1, 2, 3 :: nat] = None"
    using hang0 by (simp add: apply_page_range_def eval_nat_numeral)
  then have 3: "file_buffer list_lib ?f (Some ''9007199254740992-9007199254740992'') (Some ''odd'')
      = None"
    by (simp add: file_buffer_def list_lib_def)
  from 1 2 3 show ?thesis by blast
qed

subsection \<open>C4\<close>

lemma ws_not_special:
  assumes "is_ws c"
  shows "c \<noteq> CHR '',''" "c \<noteq> CHR ''-''"
  using assms by (auto simp: is_ws_def)

lemma Number_empty: "Number [] = Fin 0"
  by (simp add: Number_def trim_def)

lemma getPageIndices_ws:
  assumes "s \<noteq> []" "list_all is_ws s"
  shows "getPageIndices s n = Some (Indices [])"
proof -
  have comma: "CHR '','' \<notin> set s"
    using assms(2) ws_not_special(1) by (auto simp: list_all_iff)
  have dw: "dropWhile is_ws s = []"
    using assms(2) by (simp add: list_all_iff)
  have t: "trim s = []"
    by (simp add: trim_def dw)
  have "process_part n [] s = Some []"
    by (simp add: process_part_def t Number_empty in_bounds_def)
  then show ?thesis
    using assms(1) by (simp add: getPageIndices_def split_no_sep [OF comma] sort_num_def)
qed

lemma getPageIndices_999:
  assumes "n < 999"
  shows "getPageIndices ''999'' n = Some (Indices [])"
proof -
  have t: "trim ''999'' = ''999''" by code_simp
  have d: "is_dec ''999''" by code_simp
  have v: "radix_val 10 ''999'' = 999" by code_simp
  have "process_part n [] ''999'' = Some []"
    using assms by (simp add: process_part_page [OF t d] v)
  then show ?thesis
    by (simp add: getPageIndices_def sort_num_def)
qed

lemma file_buffer_unfiltered:
  assumes "mimetype f = ''application/pdf''"
    and "load lib (content f) = Some pdfDoc"
    and "apply_page_range pageRange pdfDoc = Some (Ok (pdfDoc, False))"
  shows "file_buffer lib f pageRange duplexType = file_buffer lib f None duplexType"
proof -
  have "apply_page_range None pdfDoc = Some (Ok (pdfDoc, False))"
    by (simp add: apply_page_range_def)
  then show ?thesis
    using assms by (simp add: file_buffer_def)
qed

lemma file_buffer_no_split:
  assumes "mimetype f = ''application/pdf''"
    and "load lib (content f) = Some pdfDoc"
    and "apply_page_range pageRange pdfDoc = Some (Ok (pdfDoc, False))"
    and "duplexType \<noteq> Some ''odd'' \<and> duplexType \<noteq> Some ''even''"
  shows "file_buffer lib f pageRange duplexType = Some (Ok (content f))"
  using assms by (simp add: file_buffer_def apply_duplex_def)

lemma print_handler_same_buffer:
  assumes "req_file req = Some f"
    and "file_buffer lib f (pages req) (duplex req) = file_buffer lib f None (duplex req)"
  shows "print_handler lib printer req = print_handler lib printer (req\<lparr>pages := None\<rparr>)"
proof -
  have "print_job lib req f = print_job lib (req\<lparr>pages := None\<rparr>) f"
    using assms(2) by (simp add: print_job_def split: option.split outcome.split)
  then show ?thesis
    using assms(1) by (simp add: print_handler_def split: option.split outcome.split)
qed

text \<open>
  C4, as the code has it. Resolving the empty string yields \<^verbatim>\<open>null\<close>; resolving a
  string of white space only yields the empty array, and so does resolving an expression
  of the grammar all of whose pages are out of bounds, such as \<^verbatim>\<open>999\<close> against fewer
  than 999 pages. On \<^verbatim>\<open>null\<close> and on the empty array alike the page range of a request
  for a PDF is skipped and no error is raised: the buffer built, and with it the
  response, is that of the same request without a page range; it is the uploaded buffer,
  unmodified, when the duplex directive is neither \<^verbatim>\<open>odd\<close> nor \<^verbatim>\<open>even\<close>.
\<close>

theorem C4_no_constraint:
  "getPageIndices '''' n = Some Null
   \<and> (rangeStr \<noteq> [] \<and> list_all is_ws rangeStr \<longrightarrow> getPageIndices rangeStr n = Some (Indices []))
   \<and> (valid_expr e \<and> expr_pages e n = {} \<longrightarrow> getPageIndices e n = Some (Indices []))
   \<and> (n < 999 \<longrightarrow> getPageIndices ''999'' n = Some (Indices []))
   \<and> (mimetype f = ''application/pdf'' \<and> load lib (content f) = Some pdfDoc
        \<and> (getPageIndices s (length pdfDoc) = Some Null
            \<or> getPageIndices s (length pdfDoc) = Some (Indices []))
      \<longrightarrow> apply_page_range (Some s) pdfDoc = Some (Ok (pdfDoc, False))
        \<and> file_buffer lib f (Some s) duplexType = file_buffer lib f None duplexType
        \<and> (duplexType \<noteq> Some ''odd'' \<and> duplexType \<noteq> Some ''even''
             \<longrightarrow> file_buffer lib f (Some s) duplexType = Some (Ok (content f)))
        \<and> (req_file req = Some f \<and> pages req = Some s
             \<longrightarrow> print_handler lib printer req = print_handler lib printer (req\<lparr>pages := None\<rparr>)))"
proof -
  have 1: "getPageIndices '''' n = Some Null"
    by (simp add: getPageIndices_def)
  have 5: "apply_page_range (Some s) pdfDoc = Some (Ok (pdfDoc, False))
        \<and> file_buffer lib f (Some s) duplexType = file_buffer lib f None duplexType
        \<and> (duplexType \<noteq> Some ''odd'' \<and> duplexType \<noteq> Some ''even''
             \<longrightarrow> file_buffer lib f (Some s) duplexType = Some (Ok (content f)))
        \<and> (req_file req = Some f \<and> pages req = Some s
             \<longrightarrow> print_handler lib printer req = print_handler lib printer (req\<lparr>pages := None\<rparr>))"
    if h: "mimetype f = ''application/pdf'' \<and> load lib (content f) = Some pdfDoc
        \<and> (getPageIndices s (length pdfDoc) = Some Null
            \<or> getPageIndices s (length pdfDoc) = Some (Indices []))"
  proof -
    from h have m: "mimetype f = ''application/pdf''" and l: "load lib (content f) = Some pdfDoc"
      by blast+
    have ap: "apply_page_range (Some s) pdfDoc = Some (Ok (pdfDoc, False))"
      using h by (auto simp: apply_page_range_def)
    have fb: "file_buffer lib f (Some s) d = file_buffer lib f None d" for d
      using m l ap by (rule file_buffer_unfiltered)
    have ns: "file_buffer lib f (Some s) duplexType = Some (Ok (content f))"
      if "duplexType \<noteq> Some ''odd'' \<and> duplexType \<noteq> Some ''even''"
      using m l ap that by (rule file_buffer_no_split)
    have ph: "print_handler lib printer req = print_handler lib printer (req\<lparr>pages := None\<rparr>)"
      if "req_file req = Some f \<and> pages req = Some s"
      using that fb [of "duplex req"] print_handler_same_buffer [of req f lib printer] by simp
    from ap fb ns ph show ?thesis by blast
  qed
  from 1 5 getPageIndices_ws [of rangeStr n] getPageIndices_out_of_bounds [of e n]
    getPageIndices_999 [of n]
  show ?thesis by blast
qed

text \<open>
  Against three pages: white space only, \<^verbatim>\<open>5-7, 999\<close> and \<^verbatim>\<open>999\<close> resolve to the empty
  array; the request with \<^verbatim>\<open>999\<close> and no duplex directive sends the uploaded buffer and
  is answered as the request without page range is.
\<close>

theorem C4_witness:
  "getPageIndices '''' 3 = Some Null
   \<and> getPageIndices ''   '' 3 = Some (Indices [])
   \<and> valid_expr ''5-7, 999'' \<and> expr_pages ''5-7, 999'' 3 = {}
   \<and> getPageIndices ''5-7, 999'' 3 = Some (Indices [])
   \<and> getPageIndices ''999'' 3 = Some (Indices [])
   \<and> apply_page_range (Some ''999'') [1, 2, 3 :: nat] = Some (Ok ([1, 2, 3], False))
   \<and> file_buffer list_lib
        \<lparr> originalname = ''three.pdf'', mimetype = ''application/pdf'', content = [1, 2, 3] \<rparr>
        (Some ''999'') None = Some (Ok [1, 2, 3])
   \<and> print_handler list_lib accepting_printer
        \<lparr> req_file = Some \<lparr> originalname = ''three.pdf'', mimetype = ''application/pdf'',
                              content = [1, 2, 3] \<rparr>,
          printerUrl = Some ''ipp://printer'', duplex = None, pages = Some ''999'',
          grayscale = None \<rparr>
     = print_handler list_lib accepting_printer
        \<lparr> req_file = Some \<lparr> originalname = ''three.pdf'', mimetype = ''application/pdf'',
                              content = [1, 2, 3] \<rparr>,
          printerUrl = Some ''ipp://printer'', duplex = None, pages = None,
          grayscale = None \<rparr>"
proof -
  let ?f = "\<lparr> originalname = ''three.pdf'', mimetype = ''application/pdf'',
      content = [1, 2, 3 :: nat] \<rparr>"
  let ?req = "\<lparr> req_file = Some ?f, printerUrl = Some ''ipp://printer'', duplex = None,
      pages = Some ''999'', grayscale = None \<rparr>"
  have h1: "''   '' \<noteq> [] \<and> list_all is_ws ''   ''" by code_simp
  have v: "valid_expr ''5-7, 999''" by code_simp
  have tp: "token_pages (trim ''5-7'') 3 = {}" "token_pages (trim '' 999'') 3 = {}"
  proof -
    have t: "trim ''5-7'' = ''5'' @ CHR ''-'' # ''7''" "trim '' 999'' = ''999''"
      by code_simp+
    have d: "is_dec ''5''" "is_dec ''7''" "is_dec ''999''"
      by code_simp+
    have r: "radix_val 10 ''5'' = 5" "radix_val 10 ''7'' = 7" "radix_val 10 ''999'' = 999"
      by code_simp+
    show "token_pages (trim ''5-7'') 3 = {}"
      unfolding t(1) token_pages_range [OF d(1,2)] r by (auto simp: pages_of_def)
    show "token_pages (trim '' 999'') 3 = {}"
      unfolding t(2) token_pages_page [OF d(3)] r by (auto simp: pages_of_def)
  qed
  have sp: "split CHR '','' ''5-7, 999'' = [''5-7'', '' 999'']" by code_simp
  have ep: "expr_pages ''5-7, 999'' 3 = {}"
    by (simp add: expr_pages_def sp tp del: split.simps)
  have h2: "valid_expr ''5-7, 999'' \<and> expr_pages ''5-7, 999'' 3 = {}"
    using v ep by blast
  have h3: "(3 :: nat) < 999" by simp
  have h4: "mimetype ?f = ''application/pdf'' \<and> load list_lib (content ?f) = Some [1, 2, 3]
      \<and> (getPageIndices ''999'' (length [1, 2, 3 :: nat]) = Some Null
          \<or> getPageIndices ''999'' (length [1, 2, 3 :: nat]) = Some (Indices []))"
    by code_simp
  have h5: "(None :: string option) \<noteq> Some ''odd'' \<and> (None :: string option) \<noteq> Some ''even''"
    by simp
  have h6: "req_file ?req = Some ?f \<and> pages ?req = Some ''999''" by simp
  note th = C4_no_constraint [of 3 "''   ''" "''5-7, 999''" ?f list_lib "[1, 2, 3]" "''999''"
      None ?req accepting_printer]
  from th have 1: "getPageIndices '''' 3 = Some Null" by blast
  from th h1 have 2: "getPageIndices ''   '' 3 = Some (Indices [])" by blast
  from th h2 have 3: "getPageIndices ''5-7, 999'' 3 = Some (Indices [])" by blast
  from th h3 have 4: "getPageIndices ''999'' 3 = Some (Indices [])" by blast
  from th h4 have 5: "apply_page_range (Some ''999'') [1, 2, 3 :: nat] = Some (Ok ([1, 2, 3], False))"
    by blast
  from th h4 h5 have "file_buffer list_lib ?f (Some ''999'') None = Some (Ok (content ?f))"
    by blast
  then have 6: "file_buffer list_lib ?f (Some ''999'') None = Some (Ok [1, 2, 3])"
    by simp
  from th h4 h6 have "print_handler list_lib accepting_printer ?req
      = print_handler list_lib accepting_printer (?req\<lparr>pages := None\<rparr>)"
    by blast
  then have 7: "print_handler list_lib accepting_printer ?req
      = print_handler list_lib accepting_printer
          \<lparr> req_file = Some ?f, printerUrl = Some ''ipp://printer'', duplex = None,
            pages = None, grayscale = None \<rparr>"
    by simp
  from 1 2 h2 3 4 5 6 7 show ?thesis by blast
qed

text \<open>
  White space only and \<^verbatim>\<open>999\<close> against three pages resolve to the same empty array,
  and the request with \<^verbatim>\<open>999\<close> is printed: the printer's job id comes back, no error.
\<close>

theorem C4_counterexample:
  "getPageIndices ''   '' 3 = Some (Indices [])
   \<and> getPageIndices ''999'' 3 = Some (Indices [])
   \<and> print_handler list_lib accepting_printer
        \<lparr> req_file = Some \<lparr> originalname = ''three.pdf'', mimetype = ''application/pdf'',
                              content = [1, 2, 3] \<rparr>,
          printerUrl = Some ''ipp://printer'', duplex = None, pages = Some ''999'',
          grayscale = None \<rparr>
      = Some (Success 7)"
  by code_simp

subsection \<open>C8\<close>

lemma job_attributes_tag_not_auto:
  "duplexType \<noteq> Some ''auto'' \<Longrightarrow> job_attributes_tag gray duplexType = job_attributes_tag gray None"
  by (simp add: job_attributes_tag_def)

text \<open>
  C8, as the code has it: for every request whose file is not a PDF, the buffer that is
  sent is the uploaded one, whatever the page range and the duplex directive are; and
  the response does not tell that they were ignored: when the directive is not
  \<^verbatim>\<open>auto\<close>, it is the response to the same request without page range and directive.
\<close>

theorem C8_passthrough:
  assumes "mimetype f \<noteq> ''application/pdf''"
  shows "file_buffer lib f pageRange duplexType = Some (Ok (content f))
    \<and> (req_file req = Some f \<and> duplex req \<noteq> Some ''auto''
         \<longrightarrow> print_handler lib printer req
             = print_handler lib printer (req\<lparr>pages := None, duplex := None\<rparr>))"
proof -
  have 1: "file_buffer lib f p d = Some (Ok (content f))" for p d
    using assms by (simp add: file_buffer_def)
  have "print_job lib req f = print_job lib (req\<lparr>pages := None, duplex := None\<rparr>) f"
    if "duplex req \<noteq> Some ''auto''"
    using job_attributes_tag_not_auto [OF that] by (simp add: print_job_def 1)
  then have "print_handler lib printer req
      = print_handler lib printer (req\<lparr>pages := None, duplex := None\<rparr>)"
    if "req_file req = Some f" "duplex req \<noteq> Some ''auto''"
    using that by (simp add: print_handler_def split: option.split outcome.split)
  with 1 show ?thesis by blast
qed

theorem C8_witness:
  "file_buffer list_lib
     \<lparr> originalname = ''notes.txt'', mimetype = ''text/plain'', content = [1, 2, 3] \<rparr>
     (Some ''1-2'') (Some ''odd'') = Some (Ok [1, 2, 3])
   \<and> print_handler list_lib accepting_printer
        \<lparr> req_file = Some \<lparr> originalname = ''notes.txt'', mimetype = ''text/plain'',
                              content = [1, 2, 3] \<rparr>,
          printerUrl = Some ''ipp://printer'', duplex = Some ''odd'', pages = Some ''1-2'',
          grayscale = None \<rparr>
     = print_handler list_lib accepting_printer
        \<lparr> req_file = Some \<lparr> originalname = ''notes.txt'', mimetype = ''text/plain'',
                              content = [1, 2, 3] \<rparr>,
          printerUrl = Some ''ipp://printer'', duplex = None, pages = None,
          grayscale = None \<rparr>"
proof -
  let ?f = "\<lparr> originalname = ''notes.txt'', mimetype = ''text/plain'', content = [1, 2, 3 :: nat] \<rparr>"
  let ?req = "\<lparr> req_file = Some ?f, printerUrl = Some ''ipp://printer'', duplex = Some ''odd'',
      pages = Some ''1-2'', grayscale = None \<rparr>"
  have h: "mimetype ?f \<noteq> ''application/pdf''" by simp
  have h2: "req_file ?req = Some ?f \<and> duplex ?req \<noteq> Some ''auto''" by simp
  from C8_passthrough [OF h, of list_lib "Some ''1-2''" "Some ''odd''" ?req accepting_printer] h2
  show ?thesis by simp
qed

text \<open>
  A text file sent with the page range \<^verbatim>\<open>1-2\<close> and the directive \<^verbatim>\<open>odd\<close>: the
  response is the job id, as it is without them, and nothing in it reports that they were
  ignored.
\<close>

theorem C8_counterexample:
  "print_handler list_lib accepting_printer
        \<lparr> req_file = Some \<lparr> originalname = ''notes.txt'', mimetype = ''text/plain'',
                              content = [1, 2, 3] \<rparr>,
          printerUrl = Some ''ipp://printer'', duplex = Some ''odd'', pages = Some ''1-2'',
          grayscale = None \<rparr>
     = Some (Success 7)
   \<and> print_handler list_lib accepting_printer
        \<lparr> req_file = Some \<lparr> originalname = ''notes.txt'', mimetype = ''text/plain'',
                              content = [1, 2, 3] \<rparr>,
          printerUrl = Some ''ipp://printer'', duplex = None, pages = None,
          grayscale = None \<rparr>
     = Some (Success 7)"
  by code_simp

subsection \<open>C10\<close>

text \<open>
  C10, as the code has it: for every request for a PDF whose non-empty page range
  resolves to the empty array, the handler skips the page range: the job, and with it the
  response, is the one of the same request without page range, with no error. Without
  the directive \<^verbatim>\<open>odd\<close> or \<^verbatim>\<open>even\<close> the buffer sent is the uploaded one, unmodified; with
  one of them it is the split of the whole document.
\<close>

theorem C10_empty_range_skipped:
  assumes "mimetype f = ''application/pdf''"
    and "load lib (content f) = Some pdfDoc"
    and "pages req = Some rangeStr"
    and "rangeStr \<noteq> []"
    and "getPageIndices rangeStr (length pdfDoc) = Some (Indices [])"
  shows "apply_page_range (pages req) pdfDoc = Some (Ok (pdfDoc, False))
    \<and> print_job lib req f = print_job lib (req\<lparr>pages := None\<rparr>) f
    \<and> (req_file req = Some f
         \<longrightarrow> print_handler lib printer req = print_handler lib printer (req\<lparr>pages := None\<rparr>))
    \<and> (duplex req \<noteq> Some ''odd'' \<and> duplex req \<noteq> Some ''even''
         \<longrightarrow> file_buffer lib f (pages req) (duplex req) = Some (Ok (content f)))
    \<and> (duplex req = Some d \<and> (d = ''odd'' \<or> d = ''even'')
         \<longrightarrow> file_buffer lib f (pages req) (duplex req)
             = Some (Ok (save lib (parity_loop d pdfDoc 0 []))))"
proof -
  have 1: "apply_page_range (pages req) pdfDoc = Some (Ok (pdfDoc, False))"
    using assms(3,4,5) by (simp add: apply_page_range_def)
  have 0: "apply_page_range None pdfDoc = Some (Ok (pdfDoc, False))"
    by (simp add: apply_page_range_def)
  have fb: "file_buffer lib f (pages req) (duplex req) = file_buffer lib f None (duplex req)"
    using assms(1,2) by (simp add: file_buffer_def 1 0)
  then have 2: "print_job lib req f = print_job lib (req\<lparr>pages := None\<rparr>) f"
    by (simp add: print_job_def split: option.split outcome.split)
  then have 3: "print_handler lib printer req = print_handler lib printer (req\<lparr>pages := None\<rparr>)"
    if "req_file req = Some f"
    using that by (simp add: print_handler_def split: option.split outcome.split)
  have 4: "file_buffer lib f (pages req) (duplex req) = Some (Ok (content f))"
    if "duplex req \<noteq> Some ''odd'' \<and> duplex req \<noteq> Some ''even''"
    using that assms(1,2) by (simp add: file_buffer_def 1 apply_duplex_def)
  have 5: "file_buffer lib f (pages req) (duplex req) = Some (Ok (save lib (parity_loop d pdfDoc 0 [])))"
    if "duplex req = Some d \<and> (d = ''odd'' \<or> d = ''even'')"
    using that assms(1,2) by (auto simp: file_buffer_def 1 apply_duplex_def)
  from 1 2 3 4 5 show ?thesis by blast
qed

theorem C10_witness:
  "file_buffer list_lib
     \<lparr> originalname = ''three.pdf'', mimetype = ''application/pdf'', content = [1, 2, 3] \<rparr>
     (Some ''999'') None = Some (Ok [1, 2, 3])
   \<and> print_handler list_lib accepting_printer
        \<lparr> req_file = Some \<lparr> originalname = ''three.pdf'', mimetype = ''application/pdf'',
                              content = [1, 2, 3] \<rparr>,
          printerUrl = Some ''ipp://printer'', duplex = None, pages = Some ''999'',
          grayscale = None \<rparr>
     = print_handler list_lib accepting_printer
        \<lparr> req_file = Some \<lparr> originalname = ''three.pdf'', mimetype = ''application/pdf'',
                              content = [1, 2, 3] \<rparr>,
          printerUrl = Some ''ipp://printer'', duplex = None, pages = None,
          grayscale = None \<rparr>"
proof -
  let ?f = "\<lparr> originalname = ''three.pdf'', mimetype = ''application/pdf'',
      content = [1, 2, 3 :: nat] \<rparr>"
  let ?req = "\<lparr> req_file = Some ?f, printerUrl = Some ''ipp://printer'', duplex = None,
      pages = Some ''999'', grayscale = None \<rparr>"
  have h1: "mimetype ?f = ''application/pdf''" by simp
  have h2: "load list_lib (content ?f) = Some [1, 2, 3]" by (simp add: list_lib_def)
  have h3: "pages ?req = Some ''999''" by simp
  have h4: "''999'' \<noteq> []" by simp
  have h5: "getPageIndices ''999'' (length [1, 2, 3 :: nat]) = Some (Indices [])" by code_simp
  from C10_empty_range_skipped [OF h1 h2 h3 h4 h5, of accepting_printer] show ?thesis
    by simp
qed

text \<open>
  With the directive \<^verbatim>\<open>odd\<close>, the request with the range \<^verbatim>\<open>999\<close> for a PDF of three
  pages sends pages 1 and 3, not the uploaded buffer.
\<close>

theorem C10_counterexample:
  "file_buffer list_lib
     \<lparr> originalname = ''three.pdf'', mimetype = ''application/pdf'', content = [1, 2, 3] \<rparr>
     (Some ''999'') (Some ''odd'') = Some (Ok [1, 3])
   \<and> getPageIndices ''999'' 3 = Some (Indices [])"
  by code_simp

subsection \<open>C1\<close>

text \<open>
  C1, as the code has it, for a page count below \<open>2 ^ 53\<close>: for every string on which the
  resolver returns an array, the array is strictly ascending and has no duplicates; and
  for every range expression of the grammar (comma-separated page numbers and
  \<^verbatim>\<open>start-end\<close> ranges of page numbers below \<open>2 ^ 53\<close>) the resolver does return an array,
  strictly ascending and without duplicates, whose elements are integers within
  \<open>[0, n)\<close>.
\<close>

theorem C1_resolver_ascending:
  assumes "totalPages < 2 ^ 53"
  shows "(getPageIndices rangeStr totalPages = Some (Indices r)
            \<longrightarrow> sorted_wrt js_lt r \<and> distinct r)
    \<and> (valid_expr rangeStr
            \<longrightarrow> (\<exists>r. getPageIndices rangeStr totalPages = Some (Indices r)
                  \<and> sorted_wrt js_lt r \<and> distinct r
                  \<and> set r \<subseteq> {Fin (of_nat k) | k. k < totalPages}))"
proof (intro conjI impI)
  assume "getPageIndices rangeStr totalPages = Some (Indices r)"
  then show "sorted_wrt js_lt r" "distinct r"
    using getPageIndices_ascending assms by blast+
next
  assume "valid_expr rangeStr"
  then obtain r' where r': "getPageIndices rangeStr totalPages = Some (Indices r')"
    and sub: "set r' \<subseteq> {Fin (of_nat k) | k. k < totalPages}"
    using getPageIndices_valid by blast
  from r' assms have "sorted_wrt js_lt r' \<and> distinct r'"
    by (rule getPageIndices_ascending)
  with r' sub show "\<exists>r. getPageIndices rangeStr totalPages = Some (Indices r)
      \<and> sorted_wrt js_lt r \<and> distinct r \<and> set r \<subseteq> {Fin (of_nat k) | k. k < totalPages}"
    by blast
qed

theorem C1_witness:
  "valid_expr ''5, 3-4, 1, 3''
   \<and> getPageIndices ''5, 3-4, 1, 3'' 10 = Some (Indices [Fin 0, Fin 2, Fin 3, Fin 4])
   \<and> sorted_wrt js_lt [Fin 0, Fin 2, Fin 3, Fin 4]
   \<and> distinct [Fin 0, Fin 2, Fin 3, Fin 4]
   \<and> set [Fin 0, Fin 2, Fin 3, Fin 4] \<subseteq> {Fin (of_nat k) | k. k < (10 :: nat)}"
proof -
  have h: "(10 :: nat) < 2 ^ 53" by simp
  have v: "valid_expr ''5, 3-4, 1, 3''" by code_simp
  have g: "getPageIndices ''5, 3-4, 1, 3'' 10 = Some (Indices [Fin 0, Fin 2, Fin 3, Fin 4])"
    by code_simp
  from C1_resolver_ascending [OF h, of "''5, 3-4, 1, 3''" "[Fin 0, Fin 2, Fin 3, Fin 4]"] v g
  show ?thesis by auto
qed

text \<open>
  The token \<^verbatim>\<open>0.5\<close> resolves to the index \<open>-1/2\<close>, outside \<open>[0, n)\<close>; the empty string
  resolves to \<^verbatim>\<open>null\<close>, not to a sequence; and on the range from \<open>2 ^ 53\<close> to \<open>2 ^ 53\<close>
  the resolver does not return, since \<^verbatim>\<open>i++\<close> leaves \<open>2 ^ 53\<close> as it is.
\<close>

theorem C1_counterexample:
  "getPageIndices ''0.5'' 3 = Some (Indices [Fin (- 1 / 2)])
   \<and> \<not> js_le (Fin 0) (Fin (- 1 / 2))
   \<and> getPageIndices '''' 3 = Some Null
   \<and> getPageIndices ''9007199254740992-9007199254740992'' 3 = None"
proof -
  have "getPageIndices ''0.5'' 3 = Some (Indices [Fin (- 1 / 2)])" by code_simp
  moreover have "\<not> js_le (Fin 0) (Fin (- 1 / 2))" by simp
  moreover have "getPageIndices '''' 3 = Some Null" by code_simp
  ultimately show ?thesis using hang0 by blast
qed

subsection \<open>C6\<close>

lemma js_le_NaN: "js_le x NaN = False"
  by (cases x) simp_all

lemma process_part_NaN_range:
  assumes "CHR ''-'' \<in> set (trim part)"
    and "Number (split CHR ''-'' (trim part) ! 0) = NaN \<or> Number (split CHR ''-'' (trim part) ! 1) = NaN"
  shows "process_part n acc part = Some acc"
proof -
  obtain x y rest where sp: "split CHR ''-'' (trim part) = x # y # rest"
    using split_sep_length [OF assms(1)] by blast
  have "Number x = NaN \<or> Number y = NaN"
    using assms(2) by (simp add: sp)
  then have "\<not> js_le (Number x) (Number y)"
    by (auto simp: js_le_NaN)
  then have "range_loop (Number x) (Number y) n acc = Some acc"
    by (rule range_loop_stop)
  then show ?thesis
    using assms(1) by (simp add: process_part_def sp)
qed

text \<open>
  C6, as the code has it. A token without \<^verbatim>\<open>-\<close> that \<^verbatim>\<open>Number\<close> reads as \<^verbatim>\<open>NaN\<close>, or
  as a number that is not in \<open>(0, totalPages]\<close>, is dropped without error, and so is a
  token with \<^verbatim>\<open>-\<close> whose start or end \<^verbatim>\<open>Number\<close> reads as \<^verbatim>\<open>NaN\<close>. A token
  \<^verbatim>\<open>start-end\<close> of two page numbers contributes exactly the indices \<open>p - 1\<close> of the pages
  \<open>p\<close> from start to end that are within \<open>[1, totalPages]\<close>, none when there is none.
  Resolving \<^verbatim>\<open>1-3, 5\<close> against 3 pages yields 0, 1, 2.
\<close>

theorem C6_dropped_tokens:
  "(CHR ''-'' \<notin> set (trim part) \<and> Number (trim part) = NaN
      \<longrightarrow> process_part totalPages indices part = Some indices)
   \<and> (CHR ''-'' \<notin> set (trim part) \<and> Number (trim part) = Fin q \<and> (q \<le> 0 \<or> of_nat totalPages < q)
      \<longrightarrow> process_part totalPages indices part = Some indices)
   \<and> (CHR ''-'' \<in> set (trim part)
        \<and> (Number (split CHR ''-'' (trim part) ! 0) = NaN \<or> Number (split CHR ''-'' (trim part) ! 1) = NaN)
      \<longrightarrow> process_part totalPages indices part = Some indices)
   \<and> (trim part = a @ CHR ''-'' # b \<and> is_dec a \<and> is_dec b
      \<longrightarrow> (\<exists>r. process_part totalPages indices part = Some r
            \<and> set r = set indices \<union> pages_of (radix_val 10 a) (radix_val 10 b) totalPages))
   \<and> getPageIndices ''1-3, 5'' 3 = Some (Indices [Fin 0, Fin 1, Fin 2])"
proof -
  have 1: "process_part totalPages indices part = Some indices"
    if "CHR ''-'' \<notin> set (trim part) \<and> Number (trim part) = NaN"
    using that by (simp add: process_part_def in_bounds_def)
  have 2: "process_part totalPages indices part = Some indices"
    if "CHR ''-'' \<notin> set (trim part) \<and> Number (trim part) = Fin q \<and> (q \<le> 0 \<or> of_nat totalPages < q)"
    using that by (auto simp: process_part_def in_bounds_def)
  have 3: "process_part totalPages indices part = Some indices"
    if "CHR ''-'' \<in> set (trim part)
        \<and> (Number (split CHR ''-'' (trim part) ! 0) = NaN \<or> Number (split CHR ''-'' (trim part) ! 1) = NaN)"
    using that process_part_NaN_range by blast
  have 4: "\<exists>r. process_part totalPages indices part = Some r
            \<and> set r = set indices \<union> pages_of (radix_val 10 a) (radix_val 10 b) totalPages"
    if "trim part = a @ CHR ''-'' # b \<and> is_dec a \<and> is_dec b"
    using that process_part_range by blast
  have 5: "getPageIndices ''1-3, 5'' 3 = Some (Indices [Fin 0, Fin 1, Fin 2])"
    by code_simp
  from 1 2 3 4 5 show ?thesis by blast
qed

theorem C6_witness:
  "process_part 3 [Fin 0] ''abc'' = Some [Fin 0]
   \<and> process_part 3 [Fin 0] '' 5'' = Some [Fin 0]
   \<and> process_part 3 [Fin 0] ''x-3'' = Some [Fin 0]
   \<and> (\<exists>r. process_part 3 [Fin 0] ''2-7'' = Some r \<and> set r = set [Fin 0] \<union> pages_of 2 7 3)
   \<and> pages_of 2 7 3 = {Fin 1, Fin 2}
   \<and> getPageIndices ''1-3, 5'' 3 = Some (Indices [Fin 0, Fin 1, Fin 2])"
proof -
  have h1: "CHR ''-'' \<notin> set (trim ''abc'') \<and> Number (trim ''abc'') = NaN"
    by code_simp
  have h2: "CHR ''-'' \<notin> set (trim '' 5'') \<and> Number (trim '' 5'') = Fin 5 \<and> ((5 :: rat) \<le> 0 \<or> of_nat 3 < (5 :: rat))"
    by code_simp
  have h3: "CHR ''-'' \<in> set (trim ''x-3'')
      \<and> (Number (split CHR ''-'' (trim ''x-3'') ! 0) = NaN \<or> Number (split CHR ''-'' (trim ''x-3'') ! 1) = NaN)"
    by code_simp
  have h4: "trim ''2-7'' = ''2'' @ CHR ''-'' # ''7'' \<and> is_dec ''2'' \<and> is_dec ''7''"
    by code_simp
  have v: "radix_val 10 ''2'' = 2" "radix_val 10 ''7'' = 7"
    by code_simp+
  have p: "pages_of 2 7 3 = {Fin 1, Fin 2}"
  proof -
    have "(2 \<le> p \<and> p \<le> 7 \<and> 1 \<le> p \<and> p \<le> int 3) = (p = 2 \<or> p = 3)" for p :: int
      by auto
    then show ?thesis
      unfolding pages_of_def by auto
  qed
  from C6_dropped_tokens [of "''abc''" 3 "[Fin 0]"] h1
  have 1: "process_part 3 [Fin 0] ''abc'' = Some [Fin 0]" by blast
  from C6_dropped_tokens [of "'' 5''" 3 "[Fin 0]" 5] h2
  have 2: "process_part 3 [Fin 0] '' 5'' = Some [Fin 0]" by blast
  from C6_dropped_tokens [of "''x-3''" 3 "[Fin 0]"] h3
  have 3: "process_part 3 [Fin 0] ''x-3'' = Some [Fin 0]" by blast
  from C6_dropped_tokens [of "''2-7''" 3 "[Fin 0]" _ "''2''" "''7''"] h4
  have 4: "\<exists>r. process_part 3 [Fin 0] ''2-7'' = Some r \<and> set r = set [Fin 0] \<union> pages_of 2 7 3"
    by (simp add: v)
  from C6_dropped_tokens [of "''abc''" 3 "[Fin 0]"]
  have 5: "getPageIndices ''1-3, 5'' 3 = Some (Indices [Fin 0, Fin 1, Fin 2])" by blast
  from 1 2 3 4 5 p show ?thesis by blast
qed

text \<open>
  The token \<^verbatim>\<open>-5\<close>, which is neither a page number nor a range with a start, is read as
  the range from 0 to 5 and contributes pages 1 to 5; the token \<^verbatim>\<open>1.5\<close>, which is not
  an integer, contributes \<open>1/2\<close>.
\<close>

theorem C6_counterexample:
  "getPageIndices ''-5'' 10 = Some (Indices [Fin 0, Fin 1, Fin 2, Fin 3, Fin 4])
   \<and> getPageIndices ''1.5'' 3 = Some (Indices [Fin (1 / 2)])"
  by code_simp

end
